theory Spec2Isabelle
  imports Complex_Main "HOL-Library.Char_ord" "HOL-Library.List_Lexorder"
begin

section \<open>Data model of \<open>project_calculations.py\<close>\<close>

text \<open>
  The exceptions the modelled code can raise: \<open>max()\<close> of an empty sequence
  (\<open>ValueError\<close>), a true division by zero, and date arithmetic leaving the range of
  \<open>datetime\<close> (\<open>OverflowError\<close>).
\<close>

datatype error = ValueError | ZeroDivisionError | OverflowError

text \<open>
  One entry of \<open>ScheduleCalculator.activities\<close>: the dict built by \<open>add_activity\<close>.
  The key \<open>'id'\<close> is the field \<open>id_a\<close>. Python integers are unbounded, hence \<open>int\<close>.
\<close>

record activity =
  id_a :: int
  name :: string
  duration :: int
  predecessors :: "int list"
  early_start :: int
  early_finish :: int
  late_start :: int
  late_finish :: int
  slack :: int
  is_critical :: bool

text \<open>The object state: \<open>self.activities\<close>, a list in insertion order.\<close>

record schedule_calculator =
  activities :: "activity list"

text \<open>The dict returned by \<open>calculate_cpm\<close>; its \<open>'activities'\<close> entry is \<open>self.activities\<close>.\<close>

record cpm_result =
  result_activities :: "activity list"
  project_duration :: int
  critical_path :: "int list"
  critical_activities :: "activity list"

section \<open>\<open>ScheduleCalculator\<close>\<close>

definition init_calculator :: schedule_calculator where
  "init_calculator = \<lparr>activities = []\<rparr>"

text \<open>\<open>add_activity\<close>: appends a fresh record, all computed fields zero.\<close>

definition add_activity ::
  "int \<Rightarrow> string \<Rightarrow> int \<Rightarrow> int list option \<Rightarrow> schedule_calculator \<Rightarrow> schedule_calculator" where
  "add_activity activity_id nm dur preds self =
     self\<lparr>activities := activities self @
       [\<lparr>id_a = activity_id, name = nm, duration = dur,
         predecessors = (case preds of None \<Rightarrow> [] | Some ps \<Rightarrow> ps),
         early_start = 0, early_finish = 0, late_start = 0, late_finish = 0,
         slack = 0, is_critical = False\<rparr>]\<rparr>"

subsection \<open>Forward pass\<close>

text \<open>\<open>next((a for a in self.activities if a['id'] == pred_id), None)\<close>: the first match.\<close>

definition find_pred :: "activity list \<Rightarrow> int \<Rightarrow> activity option" where
  "find_pred acts pred_id = List.find (\<lambda>a. id_a a = pred_id) acts"

text \<open>
  The inner loop over \<open>activity['predecessors']\<close>, started at \<open>max_finish = 0\<close>.
  A found \<open>pred\<close> is a non-empty dict, so \<open>if pred:\<close> holds exactly when one was found.
\<close>

definition max_finish_of :: "activity list \<Rightarrow> int list \<Rightarrow> int" where
  "max_finish_of acts preds =
     fold (\<lambda>pred_id max_finish.
             case find_pred acts pred_id of
               None \<Rightarrow> max_finish
             | Some pred \<Rightarrow> max max_finish (early_finish pred)) preds 0"

text \<open>
  The body of the forward loop for one activity; \<open>acts\<close> is the whole list as it is
  when the activity is visited (earlier entries already updated, this and later ones not).
\<close>

definition forward_visit :: "activity list \<Rightarrow> activity \<Rightarrow> activity" where
  "forward_visit acts activity =
     (let es = (if predecessors activity = [] then 0
                else max_finish_of acts (predecessors activity))
      in activity\<lparr>early_start := es, early_finish := es + duration activity\<rparr>)"

text \<open>
  \<open>for activity in self.activities\<close> with in-place update: \<open>visited\<close> holds the entries
  already updated, the second argument the entries still to visit.
\<close>

fun forward_pass :: "activity list \<Rightarrow> activity list \<Rightarrow> activity list" where
  "forward_pass visited [] = visited"
| "forward_pass visited (activity # rest) =
     forward_pass (visited @ [forward_visit (visited @ activity # rest) activity]) rest"

text \<open>Python's \<open>max\<close> over a sequence: \<open>ValueError\<close> when it is empty.\<close>

fun py_max :: "int list \<Rightarrow> error + int" where
  "py_max [] = Inl ValueError"
| "py_max (x # xs) = Inr (fold max xs x)"

subsection \<open>Backward pass\<close>

definition successors_of :: "activity list \<Rightarrow> activity \<Rightarrow> activity list" where
  "successors_of acts activity =
     filter (\<lambda>a. id_a activity \<in> set (predecessors a)) acts"

text \<open>
  The body of the backward loop for one activity. \<open>min\<close> is only taken over a non-empty
  list of successors.
\<close>

definition backward_visit :: "int \<Rightarrow> activity list \<Rightarrow> activity \<Rightarrow> activity" where
  "backward_visit pd acts activity =
     (let lf = (case successors_of acts activity of
                  [] \<Rightarrow> pd
                | succ # others \<Rightarrow> fold min (map late_start others) (late_start succ));
          ls = lf - duration activity;
          sl = ls - early_start activity
      in activity\<lparr>late_finish := lf, late_start := ls, slack := sl,
                  is_critical := (sl = 0)\<rparr>)"

text \<open>
  \<open>for activity in reversed(self.activities)\<close>: the first list is the part not yet
  visited, in reverse order (so its head is visited next); \<open>visited\<close> is the updated tail.
\<close>

fun backward_pass :: "int \<Rightarrow> activity list \<Rightarrow> activity list \<Rightarrow> activity list" where
  "backward_pass pd [] visited = visited"
| "backward_pass pd (activity # pending) visited =
     backward_pass pd pending
       (backward_visit pd (rev pending @ activity # visited) activity # visited)"

subsection \<open>\<open>calculate_cpm\<close>\<close>

text \<open>
  Returns the outcome (the result dict or the exception) together with the state the
  object is left in.
\<close>

definition calculate_cpm ::
  "schedule_calculator \<Rightarrow> (error + cpm_result) \<times> schedule_calculator" where
  "calculate_cpm self =
     (let acts1 = forward_pass [] (activities self) in
      case py_max (map early_finish acts1) of
        Inl e \<Rightarrow> (Inl e, self\<lparr>activities := acts1\<rparr>)
      | Inr pd \<Rightarrow>
          (let acts2 = backward_pass pd (rev acts1) [] in
           (Inr \<lparr>result_activities = acts2,
                 project_duration = pd,
                 critical_path = map id_a (filter is_critical acts2),
                 critical_activities = filter is_critical acts2\<rparr>,
            self\<lparr>activities := acts2\<rparr>)))"

subsection \<open>\<open>generate_gantt_data\<close>\<close>

text \<open>
  A \<open>datetime\<close> is modelled by its proleptic Gregorian ordinal (day 1 is 0001-01-01,
  day 3652059 is 9999-12-31); the time of day is carried along unchanged by the additions
  below and dropped by the \<open>'%Y-%m-%d'\<close> format. \<open>d + timedelta(days=n)\<close> raises
  \<open>OverflowError\<close> when the sum leaves that range (for a date in range this also covers a
  \<open>timedelta\<close> that cannot be built).
\<close>

definition add_days :: "int \<Rightarrow> int \<Rightarrow> error + int" where
  "add_days d n =
     (if 1 \<le> d + n \<and> d + n \<le> 3652059 then Inr (d + n) else Inl OverflowError)"

record gantt_entry =
  g_id :: int
  g_name :: string
  start_date :: string
  end_date :: string
  g_duration :: int
  g_is_critical :: bool
  g_slack :: int
  g_predecessors :: "int list"

text \<open>
  The loop body. \<open>strftime\<close> stands for \<open>d.strftime('%Y-%m-%d')\<close>, a function of the
  library from days to strings.
\<close>

definition gantt_entry_of :: "(int \<Rightarrow> string) \<Rightarrow> int \<Rightarrow> activity \<Rightarrow> error + gantt_entry" where
  "gantt_entry_of strftime start activity =
     (case add_days start (early_start activity) of
        Inl e \<Rightarrow> Inl e
      | Inr activity_start \<Rightarrow>
          (case add_days start (early_finish activity) of
             Inl e \<Rightarrow> Inl e
           | Inr activity_end \<Rightarrow>
               Inr \<lparr>g_id = id_a activity, g_name = name activity,
                    start_date = strftime activity_start,
                    end_date = strftime activity_end,
                    g_duration = duration activity,
                    g_is_critical = is_critical activity,
                    g_slack = slack activity,
                    g_predecessors = predecessors activity\<rparr>))"

fun gantt_loop ::
  "(int \<Rightarrow> string) \<Rightarrow> int \<Rightarrow> activity list \<Rightarrow> gantt_entry list \<Rightarrow> error + gantt_entry list" where
  "gantt_loop strftime start [] gantt_data = Inr gantt_data"
| "gantt_loop strftime start (activity # rest) gantt_data =
     (case gantt_entry_of strftime start activity of
        Inl e \<Rightarrow> Inl e
      | Inr g \<Rightarrow> gantt_loop strftime start rest (gantt_data @ [g]))"

text \<open>The method only reads \<open>self.activities\<close>; the state is returned as it was.\<close>

definition generate_gantt_data ::
  "(int \<Rightarrow> string) \<Rightarrow> int \<Rightarrow> schedule_calculator \<Rightarrow>
     (error + gantt_entry list) \<times> schedule_calculator" where
  "generate_gantt_data strftime start self =
     (gantt_loop strftime start (activities self) [], self)"

section \<open>\<open>ProductivityCalculator\<close>\<close>

text \<open>
  Floating-point numbers are modelled by exact rationals. \<open>round(x, ndigits)\<close> rounds
  to the nearest multiple of \<open>10 ^ -ndigits\<close>, a tie going to the even neighbour.
\<close>

definition py_round :: "rat \<Rightarrow> nat \<Rightarrow> rat" where
  "py_round x ndigits =
     (let y = x * 10 ^ ndigits;
          f = \<lfloor>y\<rfloor>;
          r = y - of_int f;
          n = (if r < 1 / 2 then f
               else if 1 / 2 < r then f + 1
               else if even f then f else f + 1)
      in of_int n / 10 ^ ndigits)"

subsection \<open>\<open>calculate_s_curve\<close>\<close>

text \<open>
  An activity dict as this function reads it: the three keys it looks up with
  \<open>.get\<close>, each of which may be missing.
\<close>

record cost_activity =
  c_cost :: "rat option"
  c_duration :: "int option"
  c_early_start :: "int option"

definition dict_get :: "'a option \<Rightarrow> 'a \<Rightarrow> 'a" where
  "dict_get entry dflt = (case entry of None \<Rightarrow> dflt | Some v \<Rightarrow> v)"

definition py_div :: "rat \<Rightarrow> int \<Rightarrow> error + rat" where
  "py_div a b = (if b = 0 then Inl ZeroDivisionError else Inr (a / of_int b))"

text \<open>
  \<open>daily_costs\<close>: a dict from date strings to amounts, kept as an association list in
  insertion order with one entry per key.
  \<open>if date_str not in daily_costs: daily_costs[date_str] = 0\<close>, then
  \<open>daily_costs[date_str] += cost_per_day\<close>.
\<close>

definition add_cost :: "(string \<times> rat) list \<Rightarrow> string \<Rightarrow> rat \<Rightarrow> (string \<times> rat) list" where
  "add_cost daily_costs date_str cost_per_day =
     (let dc = (if date_str \<notin> fst ` set daily_costs
                then daily_costs @ [(date_str, 0)] else daily_costs)
      in map (\<lambda>(k, v). if k = date_str then (k, v + cost_per_day) else (k, v)) dc)"

text \<open>\<open>for day in range(...)\<close>, the days given as a list.\<close>

fun spread_days ::
  "(int \<Rightarrow> string) \<Rightarrow> int \<Rightarrow> rat \<Rightarrow> int list \<Rightarrow> (string \<times> rat) list \<Rightarrow>
     error + (string \<times> rat) list" where
  "spread_days strftime activity_start cost_per_day [] daily_costs = Inr daily_costs"
| "spread_days strftime activity_start cost_per_day (day # days) daily_costs =
     (case add_days activity_start day of
        Inl e \<Rightarrow> Inl e
      | Inr current_date \<Rightarrow>
          spread_days strftime activity_start cost_per_day days
            (add_cost daily_costs (strftime current_date) cost_per_day))"

definition py_range :: "int \<Rightarrow> int list" where
  "py_range n = map int [0..<nat n]"

fun spread_activities ::
  "(int \<Rightarrow> string) \<Rightarrow> int \<Rightarrow> cost_activity list \<Rightarrow> (string \<times> rat) list \<Rightarrow>
     error + (string \<times> rat) list" where
  "spread_activities strftime start [] daily_costs = Inr daily_costs"
| "spread_activities strftime start (activity # rest) daily_costs =
     (case py_div (dict_get (c_cost activity) 0) (dict_get (c_duration activity) 1) of
        Inl e \<Rightarrow> Inl e
      | Inr cost_per_day \<Rightarrow>
          (case add_days start (dict_get (c_early_start activity) 0) of
             Inl e \<Rightarrow> Inl e
           | Inr activity_start \<Rightarrow>
               (case spread_days strftime activity_start cost_per_day
                       (py_range (dict_get (c_duration activity) 0)) daily_costs of
                  Inl e \<Rightarrow> Inl e
                | Inr daily_costs' \<Rightarrow> spread_activities strftime start rest daily_costs')))"

record s_curve_point =
  date :: string
  daily_cost :: rat
  cumulative_cost :: rat
  percentage :: rat

text \<open>
  The accumulation loop. It runs over \<open>sorted(daily_costs.keys())\<close> and reads
  \<open>daily_costs[date_str]\<close>; the list given here is the entries of the dict in that order.
\<close>

fun accumulate ::
  "rat \<Rightarrow> (string \<times> rat) list \<Rightarrow> rat \<Rightarrow> s_curve_point list \<Rightarrow> s_curve_point list" where
  "accumulate total_cost [] cumulative s_curve_data = s_curve_data"
| "accumulate total_cost ((date_str, c) # entries) cumulative s_curve_data =
     (let cumulative' = cumulative + c;
          pct = (if total_cost > 0 then (cumulative' / total_cost) * 100 else 0)
      in accumulate total_cost entries cumulative'
           (s_curve_data @
              [\<lparr>date = date_str, daily_cost = py_round c 2,
                cumulative_cost = py_round cumulative' 2,
                percentage = py_round pct 2\<rparr>]))"

definition calculate_s_curve ::
  "(int \<Rightarrow> string) \<Rightarrow> cost_activity list \<Rightarrow> int \<Rightarrow> error + s_curve_point list" where
  "calculate_s_curve strftime acts start =
     (let total_cost = sum_list (map (\<lambda>a. dict_get (c_cost a) 0) acts) in
      case spread_activities strftime start acts [] of
        Inl e \<Rightarrow> Inl e
      | Inr daily_costs \<Rightarrow> Inr (accumulate total_cost (sort_key fst daily_costs) 0 []))"

subsection \<open>\<open>calculate_progress_metrics\<close>\<close>



section \<open>The route \<open>schedule_detail\<close>\<close>

text \<open>
  The caller in \<open>routes.py\<close>: the calculator is built and run only \<open>if activities:\<close>;
  otherwise there is no CPM data and the Gantt data is the empty list. Each row carries
  id, name, duration and the decoded predecessor list.
\<close>

definition schedule_detail ::
  "(int \<Rightarrow> string) \<Rightarrow> int \<Rightarrow> (int \<times> string \<times> int \<times> int list) list \<Rightarrow>
     error + (cpm_result option \<times> gantt_entry list)" where
  "schedule_detail strftime project_start rows =
     (if rows \<noteq> [] then
        (let calculator =
               fold (\<lambda>(i, n, d, ps). add_activity i n d (Some ps)) rows init_calculator
         in case calculate_cpm calculator of
              (Inl e, _) \<Rightarrow> Inl e
            | (Inr cpm_data, calculator') \<Rightarrow>
                (case fst (generate_gantt_data strftime project_start calculator') of
                   Inl e \<Rightarrow> Inl e
                 | Inr gantt_data \<Rightarrow> Inr (Some cpm_data, gantt_data)))
      else Inr (None, []))"

section \<open>Notions the properties are stated with\<close>

text \<open>
  The predecessor relation restricted to the ids that resolve to an activity, as a list
  of edges from an activity's id to a predecessor's id, and what it means for it to
  contain a cycle.
\<close>

definition pred_edges :: "activity list \<Rightarrow> (int \<times> int) list" where
  "pred_edges acts =
     concat (map (\<lambda>a. map (\<lambda>p. (id_a a, p))
                         (filter (\<lambda>p. p \<in> id_a ` set acts) (predecessors a))) acts)"

definition cyclic :: "activity list \<Rightarrow> bool" where
  "cyclic acts = (\<exists>x \<in> set (map id_a acts). (x, x) \<in> (set (pred_edges acts))\<^sup>+)"

subsection \<open>Insertion order and the reference early times\<close>

text \<open>
  Every predecessor was added before its dependents: no activity at the same or a later
  position carries an id that occurs in the predecessor list of an activity. (Ids that
  belong to no activity at all are allowed.)
\<close>

fun added_in_order :: "activity list \<Rightarrow> bool" where
  "added_in_order [] = True"
| "added_in_order (a # rest) =
     (list_all (\<lambda>b. id_a b \<notin> set (predecessors a)) (a # rest) \<and> added_in_order rest)"

text \<open>The inputs of an activity, and the inputs together with the early times.\<close>

definition inputs :: "activity \<Rightarrow> int \<times> string \<times> int \<times> int list" where
  "inputs a = (id_a a, name a, duration a, predecessors a)"

definition early_view :: "activity \<Rightarrow> (int \<times> string \<times> int \<times> int list) \<times> int \<times> int" where
  "early_view a = (inputs a, early_start a, early_finish a)"

text \<open>
  The early start as the specification words it: the maximum of \<open>early_finish\<close> over
  the activities whose id is in the predecessor list, and 0 when there is none.
\<close>

definition spec_early_start :: "activity list \<Rightarrow> activity \<Rightarrow> int" where
  "spec_early_start acts a =
     (let fs = map early_finish (filter (\<lambda>b. id_a b \<in> set (predecessors a)) acts)
      in if fs = [] then 0 else Max (set fs))"

text \<open>
  The recursive reference: the length of the longest path up to the finish of an
  activity, following predecessor ids, with the recursion depth bounded by \<open>n\<close>.
\<close>

fun longest_path_finish :: "nat \<Rightarrow> activity list \<Rightarrow> activity \<Rightarrow> int" where
  "longest_path_finish 0 acts a = 0"
| "longest_path_finish (Suc n) acts a =
     (let fs = map (longest_path_finish n acts)
                 (filter (\<lambda>b. id_a b \<in> set (predecessors a)) acts)
      in (if fs = [] then 0 else Max (set fs)) + duration a)"

subsection \<open>Example schedules\<close>

text \<open>Two activities that wait for each other.\<close>

definition cycle_example :: schedule_calculator where
  "cycle_example =
     add_activity 2 ''B'' 2 (Some [1]) (add_activity 1 ''A'' 3 (Some [2]) init_calculator)"

text \<open>One activity that names itself as predecessor.\<close>

definition self_loop_example :: schedule_calculator where
  "self_loop_example = add_activity 1 ''A'' 2 (Some [1]) init_calculator"

text \<open>The parallel paths A(3), B(5) after A, C(2) after A, D(1) after B and C.\<close>

definition parallel_example :: schedule_calculator where
  "parallel_example =
     add_activity 4 ''D'' 1 (Some [2, 3])
       (add_activity 3 ''C'' 2 (Some [1])
         (add_activity 2 ''B'' 5 (Some [1])
           (add_activity 1 ''A'' 3 None init_calculator)))"

text \<open>An activity added before the predecessor it names.\<close>

definition out_of_order_example :: schedule_calculator where
  "out_of_order_example =
     add_activity 2 ''B'' 2 None (add_activity 1 ''A'' 3 (Some [2]) init_calculator)"

text \<open>Two activities with the same id 1, of 3 and of 5 days, and one that waits for id 1.\<close>

definition duplicate_id_example :: schedule_calculator where
  "duplicate_id_example =
     add_activity 2 ''B'' 1 (Some [1])
       (add_activity 1 ''A2'' 5 None (add_activity 1 ''A'' 3 None init_calculator))"

text \<open>An activity with a negative duration, and one that waits for it.\<close>

definition negative_duration_example :: schedule_calculator where
  "negative_duration_example =
     add_activity 2 ''B'' 1 (Some [1]) (add_activity 1 ''A'' (- 3) None init_calculator)"

lemmas example_defs = init_calculator_def add_activity_def cycle_example_def
  self_loop_example_def parallel_example_def out_of_order_example_def

subsection \<open>Predecessor ids that match no activity\<close>

text \<open>
  An activity with the predecessor ids outside \<open>known\<close> removed, and a list of
  activities with every predecessor id removed that is the id of none of them.
\<close>

definition without_dangling :: "int set \<Rightarrow> activity \<Rightarrow> activity" where
  "without_dangling known a =
     a\<lparr>predecessors := filter (\<lambda>p. p \<in> known) (predecessors a)\<rparr>"

definition drop_dangling :: "activity list \<Rightarrow> activity list" where
  "drop_dangling acts = map (without_dangling (id_a ` set acts)) acts"

text \<open>Two activities that name the unknown ids 99 and 77.\<close>

definition dangling_example :: schedule_calculator where
  "dangling_example =
     add_activity 2 ''B'' 2 (Some [1, 77]) (add_activity 1 ''A'' 3 (Some [99]) init_calculator)"

subsection \<open>Calendar dates for the examples\<close>

text \<open>
  The \<open>'%Y-%m-%d'\<close> rendering of a day given by its ordinal, for years of four
  digits, after the conversion the Python library uses (\<open>_ord2ymd\<close>). It is the
  rendering used in the examples; the properties below hold for any rendering.
\<close>

definition days_before_month :: "int \<Rightarrow> int" where
  "days_before_month m =
     [- 1, 0, 31, 59, 90, 120, 151, 181, 212, 243, 273, 304, 334] ! nat m"

definition days_in_month :: "int \<Rightarrow> int" where
  "days_in_month m = [- 1, 31, 28, 31, 30, 31, 30, 31, 31, 30, 31, 30, 31] ! nat m"

definition ord2ymd :: "int \<Rightarrow> int \<times> int \<times> int" where
  "ord2ymd ordinal =
     (let n = ordinal - 1;
          n400 = n div 146097; n = n mod 146097;
          n100 = n div 36524; n = n mod 36524;
          n4 = n div 1461; n = n mod 1461;
          n1 = n div 365; n = n mod 365;
          year = n400 * 400 + 1 + n100 * 100 + n4 * 4 + n1
      in if n1 = 4 \<or> n100 = 4 then (year - 1, 12, 31)
         else
           (let leapyear = (n1 = 3 \<and> (n4 \<noteq> 24 \<or> n100 = 3));
                month = (n + 50) div 32;
                preceding = days_before_month month +
                              (if month > 2 \<and> leapyear then 1 else 0)
            in if preceding > n
               then (let month' = month - 1;
                         preceding' = preceding -
                           (days_in_month month' +
                              (if month' = 2 \<and> leapyear then 1 else 0))
                     in (year, month', n - preceding' + 1))
               else (year, month, n - preceding + 1)))"

definition digit_char :: "int \<Rightarrow> char" where
  "digit_char k = ''0123456789'' ! nat k"

definition strftime_ymd :: "int \<Rightarrow> string" where
  "strftime_ymd ordinal =
     (case ord2ymd ordinal of
        (y, m, d) \<Rightarrow>
          [digit_char (y div 1000), digit_char (y div 100 mod 10),
           digit_char (y div 10 mod 10), digit_char (y mod 10), CHR ''-'',
           digit_char (m div 10), digit_char (m mod 10), CHR ''-'',
           digit_char (d div 10), digit_char (d mod 10)])"

text \<open>The parallel paths after one run of \<open>calculate_cpm\<close>.\<close>

definition gantt_example :: schedule_calculator where
  "gantt_example = snd (calculate_cpm parallel_example)"

subsection \<open>Rounding and the examples of the S-curve\<close>




section \<open>Basic facts about the two passes\<close>

lemma length_forward_pass:
  "length (forward_pass visited rest) = length visited + length rest"
  by (induction rest arbitrary: visited) auto

lemma length_backward_pass:
  "length (backward_pass pd pending visited) = length pending + length visited"
  by (induction pending arbitrary: visited) auto

lemma forward_visit_fields [simp]:
  "id_a (forward_visit acts a) = id_a a"
  "name (forward_visit acts a) = name a"
  "duration (forward_visit acts a) = duration a"
  "predecessors (forward_visit acts a) = predecessors a"
  "late_start (forward_visit acts a) = late_start a"
  "late_finish (forward_visit acts a) = late_finish a"
  "slack (forward_visit acts a) = slack a"
  "is_critical (forward_visit acts a) = is_critical a"
  "early_finish (forward_visit acts a) = early_start (forward_visit acts a) + duration a"
  by (simp_all add: forward_visit_def Let_def)

lemma backward_visit_fields [simp]:
  "id_a (backward_visit pd acts a) = id_a a"
  "name (backward_visit pd acts a) = name a"
  "duration (backward_visit pd acts a) = duration a"
  "predecessors (backward_visit pd acts a) = predecessors a"
  "early_start (backward_visit pd acts a) = early_start a"
  "early_finish (backward_visit pd acts a) = early_finish a"
  "late_start (backward_visit pd acts a) = late_finish (backward_visit pd acts a) - duration a"
  "slack (backward_visit pd acts a) = late_start (backward_visit pd acts a) - early_start a"
  "is_critical (backward_visit pd acts a) = (slack (backward_visit pd acts a) = 0)"
  by (simp_all add: backward_visit_def Let_def)

text \<open>A field that one visit leaves alone is left alone by the whole pass.\<close>

lemma forward_pass_map:
  assumes "\<And>acts a. f (forward_visit acts a) = f a"
  shows "map f (forward_pass visited rest) = map f (visited @ rest)"
  using assms by (induction rest arbitrary: visited) auto

lemma backward_pass_map:
  assumes "\<And>acts a. f (backward_visit pd acts a) = f a"
  shows "map f (backward_pass pd pending visited) = map f (rev pending @ visited)"
  using assms by (induction pending arbitrary: visited) auto

text \<open>What every visit establishes holds of every entry after the pass.\<close>

lemma forward_pass_all:
  assumes "\<And>acts a. P (forward_visit acts a)" "\<forall>a \<in> set visited. P a"
  shows "\<forall>a \<in> set (forward_pass visited rest). P a"
  using assms(2)
proof (induction rest arbitrary: visited)
  case Nil
  then show ?case by simp
next
  case (Cons a rest)
  have "\<forall>x \<in> set (visited @ [forward_visit (visited @ a # rest) a]). P x"
    using Cons.prems assms(1) by simp
  from Cons.IH [OF this] show ?case by simp
qed

lemma backward_pass_all:
  assumes "\<And>acts a. P a \<Longrightarrow> Q (backward_visit pd acts a)"
    "\<forall>a \<in> set pending. P a" "\<forall>a \<in> set visited. Q a"
  shows "\<forall>a \<in> set (backward_pass pd pending visited). Q a"
  using assms(2,3)
proof (induction pending arbitrary: visited)
  case Nil
  then show ?case by simp
next
  case (Cons a pending)
  have "\<forall>x \<in> set (backward_visit pd (rev pending @ a # visited) a # visited). Q x"
    using Cons.prems assms(1) by simp
  moreover have "\<forall>x \<in> set pending. P x" using Cons.prems by simp
  ultimately show ?case
    unfolding backward_pass.simps by (rule Cons.IH [rotated])
qed

lemma py_max_Max: "xs \<noteq> [] \<Longrightarrow> py_max xs = Inr (Max (set xs))"
  by (cases xs) (simp_all add: Max.set_eq_fold [symmetric])

text \<open>On a non-empty list \<open>max\<close> succeeds, and the method runs to its \<open>return\<close>.\<close>

lemma calculate_cpm_nonempty:
  assumes "activities self \<noteq> []"
  shows "calculate_cpm self =
     (let acts1 = forward_pass [] (activities self);
          pd = Max (early_finish ` set acts1);
          acts2 = backward_pass pd (rev acts1) []
      in (Inr \<lparr>result_activities = acts2, project_duration = pd,
                critical_path = map id_a (filter is_critical acts2),
                critical_activities = filter is_critical acts2\<rparr>,
          self\<lparr>activities := acts2\<rparr>))"
proof -
  have "length (forward_pass [] (activities self)) \<noteq> 0"
    using assms by (simp add: length_forward_pass)
  then have "map early_finish (forward_pass [] (activities self)) \<noteq> []" by simp
  then show ?thesis
    by (simp add: calculate_cpm_def Let_def py_max_Max)
qed

lemma cyclic_nonempty: "cyclic acts \<Longrightarrow> acts \<noteq> []"
  by (auto simp: cyclic_def)

lemma cyclic_cycle_example: "cyclic (activities cycle_example)"
proof -
  have "(1, 2) \<in> set (pred_edges (activities cycle_example))"
    "(2, 1) \<in> set (pred_edges (activities cycle_example))"
    by (simp_all add: pred_edges_def example_defs)
  then have "(1, 1) \<in> (set (pred_edges (activities cycle_example)))\<^sup>+"
    by (meson trancl.intros)
  then show ?thesis by (auto simp add: cyclic_def example_defs)
qed

section \<open>The empty schedule\<close>

text \<open>
  Claim C2 says that \<open>calculate_cpm\<close> on a calculator without activities does not raise
  and returns an empty result (no activities, duration 0, empty critical path). It does
  raise: the forward loop does nothing and \<open>max\<close> of the empty sequence is a
  \<open>ValueError\<close>.
\<close>

theorem calculate_cpm_empty_counterexample:
  "isl (fst (calculate_cpm init_calculator)) \<and>
   fst (calculate_cpm init_calculator) \<noteq>
     Inr \<lparr>result_activities = [], project_duration = 0, critical_path = [],
          critical_activities = []\<rparr>"
  by (simp add: calculate_cpm_def init_calculator_def)

text \<open>
  Claim C2, amended: on a calculator without activities \<open>calculate_cpm\<close> raises
  \<open>ValueError\<close> and leaves the calculator empty, and an empty activity list is the only
  state in which it raises. The route \<open>schedule_detail\<close> does not call it then: for a
  schedule without activities it reports no CPM data and empty Gantt data.
\<close>

theorem calculate_cpm_empty_raises:
  "calculate_cpm init_calculator = (Inl ValueError, init_calculator) \<and>
   isl (fst (calculate_cpm self)) = (activities self = []) \<and>
   schedule_detail strftime project_start [] = Inr (None, [])"
proof -
  have "isl (fst (calculate_cpm self)) = (activities self = [])"
  proof (cases "activities self = []")
    case True
    then show ?thesis by (simp add: calculate_cpm_def)
  next
    case False
    then show ?thesis by (simp add: calculate_cpm_nonempty Let_def)
  qed
  then show ?thesis
    by (simp add: calculate_cpm_def init_calculator_def schedule_detail_def)
qed

section \<open>Termination and cycles\<close>

text \<open>
  Claim C10: on every non-empty activity list, cyclic or self-referential ones included,
  \<open>calculate_cpm\<close> returns a result, with one entry per activity. (The two passes are
  structural recursions over the list, so the model is total; the statement is that the
  outcome is the result dict and not an exception.)
\<close>

theorem calculate_cpm_terminates:
  assumes "activities self \<noteq> []"
  shows "\<exists>r self'. calculate_cpm self = (Inr r, self') \<and>
           length (result_activities r) = length (activities self) \<and>
           activities self' = result_activities r"
  using assms
  by (simp add: calculate_cpm_nonempty Let_def length_backward_pass length_forward_pass)

theorem calculate_cpm_terminates_witness:
  "activities self_loop_example \<noteq> [] \<and>
   (\<exists>r self'. calculate_cpm self_loop_example = (Inr r, self') \<and>
      length (result_activities r) = length (activities self_loop_example) \<and>
      activities self' = result_activities r)"
  using calculate_cpm_terminates [of self_loop_example]
  by (simp add: example_defs)

text \<open>
  Claim C3 says that a cycle in the predecessor relation is detected before the passes
  run and reported as an \<open>InvalidScheduleError\<close>. There is no such check and no such
  error: on two activities that wait for each other the method returns a result, with
  negative slack and an empty critical path.
\<close>

theorem calculate_cpm_cycle_counterexample:
  "cyclic (activities cycle_example) \<and>
   fst (calculate_cpm cycle_example) =
     Inr \<lparr>result_activities =
            [\<lparr>id_a = 1, name = ''A'', duration = 3, predecessors = [2],
               early_start = 0, early_finish = 3, late_start = - 5,
               late_finish = - 2, slack = - 5, is_critical = False\<rparr>,
             \<lparr>id_a = 2, name = ''B'', duration = 2, predecessors = [1],
               early_start = 3, early_finish = 5, late_start = - 2,
               late_finish = 0, slack = - 5, is_critical = False\<rparr>],
          project_duration = 5, critical_path = [], critical_activities = []\<rparr>"
proof -
  have "fst (calculate_cpm cycle_example) =
     Inr \<lparr>result_activities =
            [\<lparr>id_a = 1, name = ''A'', duration = 3, predecessors = [2],
               early_start = 0, early_finish = 3, late_start = - 5,
               late_finish = - 2, slack = - 5, is_critical = False\<rparr>,
             \<lparr>id_a = 2, name = ''B'', duration = 2, predecessors = [1],
               early_start = 3, early_finish = 5, late_start = - 2,
               late_finish = 0, slack = - 5, is_critical = False\<rparr>],
          project_duration = 5, critical_path = [], critical_activities = []\<rparr>"
    by (simp add: example_defs calculate_cpm_def forward_visit_def backward_visit_def
        max_finish_of_def find_pred_def successors_of_def Let_def)
  with cyclic_cycle_example show ?thesis by simp
qed

text \<open>
  Claim C3, amended: \<open>calculate_cpm\<close> makes no cycle check. On every activity list whose
  predecessor relation contains a cycle it runs both passes and returns a result for the
  same activities, never an error.
\<close>

theorem calculate_cpm_no_cycle_check:
  assumes "cyclic (activities self)"
  shows "\<exists>r self'. calculate_cpm self = (Inr r, self') \<and>
           map id_a (result_activities r) = map id_a (activities self) \<and>
           map predecessors (result_activities r) = map predecessors (activities self)"
  using cyclic_nonempty [OF assms]
  by (simp add: calculate_cpm_nonempty Let_def backward_pass_map forward_pass_map)

theorem calculate_cpm_no_cycle_check_witness:
  "cyclic (activities cycle_example) \<and>
   (\<exists>r self'. calculate_cpm cycle_example = (Inr r, self') \<and>
      map id_a (result_activities r) = [1, 2] \<and>
      map predecessors (result_activities r) = [[2], [1]])"
  using calculate_cpm_no_cycle_check [OF cyclic_cycle_example] cyclic_cycle_example
  by (simp add: example_defs)

section \<open>The computed fields\<close>

text \<open>
  Claim C6: after \<open>calculate_cpm\<close> on a non-empty activity list every activity has
  \<open>early_finish = early_start + duration\<close>, \<open>late_start = late_finish - duration\<close>,
  \<open>slack = late_start - early_start\<close> and \<open>is_critical\<close> exactly when the slack is 0;
  the critical path is the ids of the activities with slack 0, in insertion order.
\<close>

theorem cpm_field_invariants:
  assumes "activities self \<noteq> []"
  shows "\<exists>r self'. calculate_cpm self = (Inr r, self') \<and>
           activities self' = result_activities r \<and>
           map id_a (result_activities r) = map id_a (activities self) \<and>
           (\<forall>a \<in> set (result_activities r).
              early_finish a = early_start a + duration a \<and>
              late_start a = late_finish a - duration a \<and>
              slack a = late_start a - early_start a \<and>
              is_critical a = (slack a = 0)) \<and>
           critical_path r = map id_a (filter (\<lambda>a. slack a = 0) (result_activities r))"
proof -
  define acts1 where "acts1 = forward_pass [] (activities self)"
  define pd where "pd = Max (early_finish ` set acts1)"
  define acts2 where "acts2 = backward_pass pd (rev acts1) []"
  let ?P = "\<lambda>a. early_finish a = early_start a + duration a"
  let ?Q = "\<lambda>a. early_finish a = early_start a + duration a \<and>
              late_start a = late_finish a - duration a \<and>
              slack a = late_start a - early_start a \<and>
              is_critical a = (slack a = 0)"
  have fwd: "\<forall>a \<in> set acts1. ?P a"
    unfolding acts1_def by (rule forward_pass_all) simp_all
  have bwd: "\<forall>a \<in> set acts2. ?Q a"
    unfolding acts2_def
    by (rule backward_pass_all [where P = ?P]) (use fwd in simp_all)
  have ids: "map id_a acts2 = map id_a (activities self)"
    by (simp add: acts2_def acts1_def backward_pass_map forward_pass_map)
  have crit: "filter is_critical acts2 = filter (\<lambda>a. slack a = 0) acts2"
    using bwd by (intro filter_cong) auto
  show ?thesis
    using assms bwd ids crit
    by (simp add: calculate_cpm_nonempty Let_def acts1_def [symmetric] pd_def [symmetric]
        acts2_def [symmetric])
qed

theorem cpm_field_invariants_witness:
  "activities parallel_example \<noteq> [] \<and>
   (\<exists>r self'. calculate_cpm parallel_example = (Inr r, self') \<and>
           activities self' = result_activities r \<and>
           map id_a (result_activities r) = [1, 2, 3, 4] \<and>
           list_all (\<lambda>a.
              early_finish a = early_start a + duration a \<and>
              late_start a = late_finish a - duration a \<and>
              slack a = late_start a - early_start a \<and>
              is_critical a = (slack a = 0)) (result_activities r) \<and>
           critical_path r = map id_a (filter (\<lambda>a. slack a = 0) (result_activities r)))"
  using cpm_field_invariants [of parallel_example]
  by (simp add: example_defs list_all_iff)

section \<open>Earned value metrics\<close>

lemma py_round_of_int [simp]: "py_round (of_int k) n = of_int k"
proof -
  have "(of_int k :: rat) * 10 ^ n = of_int (k * 10 ^ n)" by simp
  then have "\<lfloor>(of_int k :: rat) * 10 ^ n\<rfloor> = k * 10 ^ n"
    by (metis floor_of_int)
  then show ?thesis by (simp add: py_round_def Let_def)
qed

lemma py_round_zero [simp]: "py_round 0 n = 0"
  using py_round_of_int [of 0 n] by simp

lemma py_round_neg_100 [simp]: "py_round (- 100) n = - 100"
  using py_round_of_int [of "- 100" n] by simp



section \<open>Gantt data\<close>

lemma gantt_entry_of_Inr:
  assumes "gantt_entry_of strftime d a = Inr g"
  shows "g = \<lparr>g_id = id_a a, g_name = name a,
               start_date = strftime (d + early_start a),
               end_date = strftime (d + early_finish a),
               g_duration = duration a, g_is_critical = is_critical a,
               g_slack = slack a, g_predecessors = predecessors a\<rparr>"
  using assms by (auto simp: gantt_entry_of_def add_days_def split: if_splits)

lemma gantt_loop_Inr:
  assumes "gantt_loop strftime d acts acc = Inr g"
  shows "g = acc @ map (\<lambda>a. \<lparr>g_id = id_a a, g_name = name a,
               start_date = strftime (d + early_start a),
               end_date = strftime (d + early_finish a),
               g_duration = duration a, g_is_critical = is_critical a,
               g_slack = slack a, g_predecessors = predecessors a\<rparr>) acts"
  using assms
proof (induction acts arbitrary: acc)
  case Nil
  then show ?case by simp
next
  case (Cons a acts)
  from Cons.prems obtain e where e: "gantt_entry_of strftime d a = Inr e"
    and rest: "gantt_loop strftime d acts (acc @ [e]) = Inr g"
    by (auto split: sum.splits)
  from Cons.IH [OF rest] gantt_entry_of_Inr [OF e] show ?case by simp
qed

lemma gantt_example_eq:
  "gantt_example = \<lparr>activities =
     [\<lparr>id_a = 1, name = ''A'', duration = 3, predecessors = [],
         early_start = 0, early_finish = 3, late_start = 0, late_finish = 3,
         slack = 0, is_critical = True\<rparr>,
      \<lparr>id_a = 2, name = ''B'', duration = 5, predecessors = [1],
         early_start = 3, early_finish = 8, late_start = 3, late_finish = 8,
         slack = 0, is_critical = True\<rparr>,
      \<lparr>id_a = 3, name = ''C'', duration = 2, predecessors = [1],
         early_start = 3, early_finish = 5, late_start = 6, late_finish = 8,
         slack = 3, is_critical = False\<rparr>,
      \<lparr>id_a = 4, name = ''D'', duration = 1, predecessors = [2, 3],
         early_start = 8, early_finish = 9, late_start = 8, late_finish = 9,
         slack = 0, is_critical = True\<rparr>]\<rparr>"
  by (simp add: gantt_example_def example_defs calculate_cpm_def forward_visit_def
      backward_visit_def max_finish_of_def find_pred_def successors_of_def Let_def)

text \<open>The call returns records exactly when every start and end day is a day of the calendar.\<close>

lemma gantt_loop_returns:
  "(\<exists>g. gantt_loop strftime d acts acc = Inr g) \<longleftrightarrow>
   (\<forall>a \<in> set acts. 1 \<le> d + early_start a \<and> d + early_start a \<le> 3652059 \<and>
                     1 \<le> d + early_finish a \<and> d + early_finish a \<le> 3652059)"
proof (induction acts arbitrary: acc)
  case Nil
  then show ?case by simp
next
  case (Cons a acts)
  show ?case
  proof (cases "gantt_entry_of strftime d a")
    case (Inl e)
    then show ?thesis
      by (auto simp: gantt_entry_of_def add_days_def split: if_splits)
  next
    case (Inr g)
    then have "1 \<le> d + early_start a \<and> d + early_start a \<le> 3652059 \<and>
               1 \<le> d + early_finish a \<and> d + early_finish a \<le> 3652059"
      by (auto simp: gantt_entry_of_def add_days_def split: if_splits)
    with Inr Cons.IH [of "acc @ [g]"] show ?thesis by simp
  qed
qed

lemma generate_gantt_data_returns:
  "(\<exists>g. fst (generate_gantt_data strftime d self) = Inr g) \<longleftrightarrow>
   (\<forall>a \<in> set (activities self).
      1 \<le> d + early_start a \<and> d + early_start a \<le> 3652059 \<and>
      1 \<le> d + early_finish a \<and> d + early_finish a \<le> 3652059)"
  by (simp add: generate_gantt_data_def gantt_loop_returns)

text \<open>
  Claim C7: \<open>generate_gantt_data\<close> leaves the calculator as it was, and the records
  returned for two start dates \<open>d1\<close> and \<open>d2\<close> differ only in that every start and end
  date is the rendering of a day \<open>d2 - d1\<close> days later; id, name, duration, slack,
  criticality and predecessors are the same.
\<close>

theorem gantt_reanchor:
  assumes "fst (generate_gantt_data strftime d1 self) = Inr g1"
    and "fst (generate_gantt_data strftime d2 self) = Inr g2"
  shows "snd (generate_gantt_data strftime d1 self) = self \<and>
         snd (generate_gantt_data strftime d2 self) = self \<and>
         map start_date g1 = map (\<lambda>a. strftime (d1 + early_start a)) (activities self) \<and>
         map end_date g1 = map (\<lambda>a. strftime (d1 + early_finish a)) (activities self) \<and>
         g2 = map (\<lambda>(a, g). g\<lparr>start_date := strftime (d1 + early_start a + (d2 - d1)),
                                 end_date := strftime (d1 + early_finish a + (d2 - d1))\<rparr>)
                  (zip (activities self) g1) \<and>
         map g_id g2 = map g_id g1 \<and> map g_name g2 = map g_name g1 \<and>
         map g_duration g2 = map g_duration g1 \<and> map g_slack g2 = map g_slack g1 \<and>
         map g_is_critical g2 = map g_is_critical g1 \<and>
         map g_predecessors g2 = map g_predecessors g1"
proof -
  have g1: "g1 = map (\<lambda>a. \<lparr>g_id = id_a a, g_name = name a,
               start_date = strftime (d1 + early_start a),
               end_date = strftime (d1 + early_finish a),
               g_duration = duration a, g_is_critical = is_critical a,
               g_slack = slack a, g_predecessors = predecessors a\<rparr>) (activities self)"
    using gantt_loop_Inr [of strftime d1 "activities self" "[]" g1] assms(1)
    by (simp add: generate_gantt_data_def)
  have g2: "g2 = map (\<lambda>a. \<lparr>g_id = id_a a, g_name = name a,
               start_date = strftime (d2 + early_start a),
               end_date = strftime (d2 + early_finish a),
               g_duration = duration a, g_is_critical = is_critical a,
               g_slack = slack a, g_predecessors = predecessors a\<rparr>) (activities self)"
    using gantt_loop_Inr [of strftime d2 "activities self" "[]" g2] assms(2)
    by (simp add: generate_gantt_data_def)
  have shift: "g2 = map (\<lambda>(a, g). g\<lparr>start_date := strftime (d1 + early_start a + (d2 - d1)),
                                 end_date := strftime (d1 + early_finish a + (d2 - d1))\<rparr>)
                  (zip (activities self) g1)"
    unfolding g1 g2 by (simp add: zip_map2 zip_same_conv_map comp_def algebra_simps)
  show ?thesis
    apply (intro conjI)
              apply (simp add: generate_gantt_data_def)
             apply (simp add: generate_gantt_data_def)
            apply (simp add: g1 comp_def)
           apply (simp add: g1 comp_def)
          apply (rule shift)
         apply (simp_all add: g1 g2 comp_def)
    done
qed


theorem gantt_reanchor_witness:
  "\<exists>g1 g2.
     fst (generate_gantt_data strftime_ymd 738886 gantt_example) = Inr g1 \<and>
     fst (generate_gantt_data strftime_ymd 738895 gantt_example) = Inr g2 \<and>
     snd (generate_gantt_data strftime_ymd 738895 gantt_example) = gantt_example \<and>
     map start_date g1 = [''2024-01-01'', ''2024-01-04'', ''2024-01-04'', ''2024-01-09''] \<and>
     map end_date g1 = [''2024-01-04'', ''2024-01-09'', ''2024-01-06'', ''2024-01-10''] \<and>
     map start_date g2 = [''2024-01-10'', ''2024-01-13'', ''2024-01-13'', ''2024-01-18''] \<and>
     map end_date g2 = [''2024-01-13'', ''2024-01-18'', ''2024-01-15'', ''2024-01-19''] \<and>
     map g_id g2 = map g_id g1 \<and> map g_name g2 = map g_name g1 \<and>
     map g_duration g2 = map g_duration g1 \<and> map g_slack g2 = map g_slack g1 \<and>
     map g_is_critical g2 = map g_is_critical g1 \<and>
     map g_predecessors g2 = map g_predecessors g1"
proof -
  define g1 where "g1 =
    [\<lparr>g_id = 1, g_name = ''A'', start_date = ''2024-01-01'',
          end_date = ''2024-01-04'', g_duration = 3, g_is_critical = True,
          g_slack = 0, g_predecessors = []\<rparr>,
       \<lparr>g_id = 2, g_name = ''B'', start_date = ''2024-01-04'',
          end_date = ''2024-01-09'', g_duration = 5, g_is_critical = True,
          g_slack = 0, g_predecessors = [1]\<rparr>,
       \<lparr>g_id = 3, g_name = ''C'', start_date = ''2024-01-04'',
          end_date = ''2024-01-06'', g_duration = 2, g_is_critical = False,
          g_slack = 3, g_predecessors = [1]\<rparr>,
       \<lparr>g_id = 4, g_name = ''D'', start_date = ''2024-01-09'',
          end_date = ''2024-01-10'', g_duration = 1, g_is_critical = True,
          g_slack = 0, g_predecessors = [2, 3]\<rparr>]"
  define g2 where "g2 =
    [\<lparr>g_id = 1, g_name = ''A'', start_date = ''2024-01-10'',
          end_date = ''2024-01-13'', g_duration = 3, g_is_critical = True,
          g_slack = 0, g_predecessors = []\<rparr>,
       \<lparr>g_id = 2, g_name = ''B'', start_date = ''2024-01-13'',
          end_date = ''2024-01-18'', g_duration = 5, g_is_critical = True,
          g_slack = 0, g_predecessors = [1]\<rparr>,
       \<lparr>g_id = 3, g_name = ''C'', start_date = ''2024-01-13'',
          end_date = ''2024-01-15'', g_duration = 2, g_is_critical = False,
          g_slack = 3, g_predecessors = [1]\<rparr>,
       \<lparr>g_id = 4, g_name = ''D'', start_date = ''2024-01-18'',
          end_date = ''2024-01-19'', g_duration = 1, g_is_critical = True,
          g_slack = 0, g_predecessors = [2, 3]\<rparr>]"
  have a: "fst (generate_gantt_data strftime_ymd 738886 gantt_example) = Inr g1"
    unfolding g1_def gantt_example_eq by code_simp
  have b: "fst (generate_gantt_data strftime_ymd 738895 gantt_example) = Inr g2"
    unfolding g2_def gantt_example_eq by code_simp
  have c: "map start_date g1 = [''2024-01-01'', ''2024-01-04'', ''2024-01-04'', ''2024-01-09'']"
    "map end_date g1 = [''2024-01-04'', ''2024-01-09'', ''2024-01-06'', ''2024-01-10'']"
    "map start_date g2 = [''2024-01-10'', ''2024-01-13'', ''2024-01-13'', ''2024-01-18'']"
    "map end_date g2 = [''2024-01-13'', ''2024-01-18'', ''2024-01-15'', ''2024-01-19'']"
    by (simp_all add: g1_def g2_def)
  note r = gantt_reanchor [OF a b, THEN conjunct2]
  note unchanged = r [THEN conjunct1]
  note others = r [THEN conjunct2, THEN conjunct2, THEN conjunct2, THEN conjunct2]
  show ?thesis
    by (rule exI [of _ g1], rule exI [of _ g2])
      (rule conjI [OF a conjI [OF b conjI [OF unchanged conjI [OF c(1)
         conjI [OF c(2) conjI [OF c(3) conjI [OF c(4) others]]]]]]])
qed

section \<open>What a visit reads when activities were added in order\<close>

lemma find_pred_append_later:
  assumes "\<forall>b \<in> set later. id_a b \<noteq> p"
  shows "find_pred (visited @ later) p = find_pred visited p"
proof -
  have "List.find (\<lambda>a. id_a a = p) later = None"
    using assms by (simp add: find_None_iff)
  then show ?thesis
    unfolding find_pred_def by (induction visited) simp_all
qed

lemma find_pred_finish_cong:
  assumes "map (\<lambda>a. (id_a a, early_finish a)) L = map (\<lambda>a. (id_a a, early_finish a)) L'"
  shows "map_option early_finish (find_pred L p) = map_option early_finish (find_pred L' p)"
  using assms
proof (induction L arbitrary: L')
  case Nil
  then show ?case by (simp add: find_pred_def)
next
  case (Cons a L)
  then obtain a' M where L': "L' = a' # M" by (cases L') auto
  with Cons.prems have "id_a a = id_a a'" "early_finish a = early_finish a'"
    "map (\<lambda>a. (id_a a, early_finish a)) L = map (\<lambda>a. (id_a a, early_finish a)) M"
    by simp_all
  with Cons.IH [of M] show ?case
    by (simp add: L' find_pred_def)
qed

lemma max_finish_of_cong:
  assumes "\<And>p. p \<in> set ps \<Longrightarrow>
    map_option early_finish (find_pred L p) = map_option early_finish (find_pred L' p)"
  shows "max_finish_of L ps = max_finish_of L' ps"
proof -
  have "fold (\<lambda>pred_id max_finish.
             case find_pred L pred_id of
               None \<Rightarrow> max_finish
             | Some pred \<Rightarrow> max max_finish (early_finish pred)) ps m =
        fold (\<lambda>pred_id max_finish.
             case find_pred L' pred_id of
               None \<Rightarrow> max_finish
             | Some pred \<Rightarrow> max max_finish (early_finish pred)) ps m" for m
    using assms
  proof (induction ps arbitrary: m)
    case Nil
    then show ?case by simp
  next
    case (Cons p ps)
    have "map_option early_finish (find_pred L p) = map_option early_finish (find_pred L' p)"
      using Cons.prems by simp
    then have step: "(case find_pred L p of None \<Rightarrow> m | Some pred \<Rightarrow> max m (early_finish pred)) =
       (case find_pred L' p of None \<Rightarrow> m | Some pred \<Rightarrow> max m (early_finish pred))"
      by (cases "find_pred L p"; cases "find_pred L' p") auto
    show ?case using Cons.IH [of _] Cons.prems by (simp add: step)
  qed
  then show ?thesis by (simp add: max_finish_of_def)
qed

text \<open>Under the order condition a visit only reads entries already visited.\<close>

lemma max_finish_of_visited:
  assumes "list_all (\<lambda>b. id_a b \<notin> set ps) later"
  shows "max_finish_of (visited @ later) ps = max_finish_of visited ps"
proof (rule max_finish_of_cong)
  fix p assume "p \<in> set ps"
  with assms have "\<forall>b \<in> set later. id_a b \<noteq> p" by (auto simp: list_all_iff)
  then show "map_option early_finish (find_pred (visited @ later) p) =
     map_option early_finish (find_pred visited p)"
    by (simp add: find_pred_append_later)
qed

lemma inputs_eq_iff:
  "inputs a = inputs b \<longleftrightarrow>
     id_a a = id_a b \<and> name a = name b \<and> duration a = duration b \<and>
     predecessors a = predecessors b"
  by (auto simp: inputs_def)

lemma early_view_eq_iff:
  "early_view a = early_view b \<longleftrightarrow>
     inputs a = inputs b \<and> early_start a = early_start b \<and> early_finish a = early_finish b"
  by (auto simp: early_view_def)

lemma map_inputs_fields:
  assumes "map inputs L = map inputs L'"
  shows "map id_a L = map id_a L'" "map predecessors L = map predecessors L'"
proof -
  have "map fst (map inputs L) = map fst (map inputs L')"
    "map (snd \<circ> snd \<circ> snd) (map inputs L) = map (snd \<circ> snd \<circ> snd) (map inputs L')"
    by (simp_all only: assms)
  then show "map id_a L = map id_a L'" "map predecessors L = map predecessors L'"
    by (simp_all add: comp_def inputs_def)
qed

lemma map_early_view_fields:
  assumes "map early_view L = map early_view L'"
  shows "map inputs L = map inputs L'" "map early_finish L = map early_finish L'"
    "map (\<lambda>a. (id_a a, early_finish a)) L = map (\<lambda>a. (id_a a, early_finish a)) L'"
proof -
  have "map fst (map early_view L) = map fst (map early_view L')"
    "map (snd \<circ> snd) (map early_view L) = map (snd \<circ> snd) (map early_view L')"
    "map (\<lambda>v. (fst (fst v), snd (snd v))) (map early_view L) =
     map (\<lambda>v. (fst (fst v), snd (snd v))) (map early_view L')"
    by (simp_all only: assms)
  then show "map inputs L = map inputs L'" "map early_finish L = map early_finish L'"
    "map (\<lambda>a. (id_a a, early_finish a)) L = map (\<lambda>a. (id_a a, early_finish a)) L'"
    by (simp_all add: comp_def early_view_def) (simp add: inputs_def)
qed

lemma list_all_ids:
  "list_all (\<lambda>b. id_a b \<notin> S) L \<longleftrightarrow> set (map id_a L) \<inter> S = {}"
  by (auto simp: list_all_iff)

lemma added_in_order_cong:
  assumes "map inputs L = map inputs L'"
  shows "added_in_order L = added_in_order L'"
  using assms
proof (induction L arbitrary: L')
  case Nil
  then show ?case by simp
next
  case (Cons a L)
  then obtain b M where L': "L' = b # M" by (cases L') auto
  with Cons.prems have ab: "inputs a = inputs b" and rest: "map inputs L = map inputs M"
    by simp_all
  have "map id_a (a # L) = map id_a (b # M)"
    using map_inputs_fields(1) [OF Cons.prems [unfolded L']] .
  then have "list_all (\<lambda>x. id_a x \<notin> set (predecessors a)) (a # L) =
        list_all (\<lambda>x. id_a x \<notin> set (predecessors a)) (b # M)"
    unfolding list_all_ids by simp
  moreover have "predecessors a = predecessors b" using ab by (simp add: inputs_eq_iff)
  ultimately show ?case using Cons.IH [OF rest] by (simp add: L')
qed

lemma forward_pass_inputs [simp]:
  "map inputs (forward_pass visited rest) = map inputs (visited @ rest)"
  by (rule forward_pass_map) (simp add: inputs_def)

lemma backward_pass_early_view [simp]:
  "map early_view (backward_pass pd pending visited) = map early_view (rev pending @ visited)"
  by (rule backward_pass_map) (simp add: early_view_def inputs_def)

lemma backward_pass_inputs [simp]:
  "map inputs (backward_pass pd pending visited) = map inputs (rev pending @ visited)"
  by (rule backward_pass_map) (simp add: inputs_def)

lemma forward_pass_rel:
  assumes "map inputs rest = map inputs rest'" "added_in_order rest"
    "map early_view visited = map early_view visited'"
  shows "map early_view (forward_pass visited rest) = map early_view (forward_pass visited' rest')"
  using assms
proof (induction rest arbitrary: rest' visited visited')
  case Nil
  then show ?case by simp
next
  case (Cons a rest)
  then obtain b M where rest': "rest' = b # M" by (cases rest') auto
  with Cons.prems have ab: "inputs a = inputs b" and tl: "map inputs rest = map inputs M"
    by simp_all
  have ps: "predecessors a = predecessors b" "duration a = duration b"
    using ab by (simp_all add: inputs_eq_iff)
  have later: "list_all (\<lambda>x. id_a x \<notin> set (predecessors a)) (a # rest)"
    using Cons.prems(2) by simp
  have "map id_a (a # rest) = map id_a (b # M)"
    using map_inputs_fields(1) [OF Cons.prems(1) [unfolded rest']] .
  with later have later': "list_all (\<lambda>x. id_a x \<notin> set (predecessors a)) (b # M)"
    by (simp only: list_all_ids)
  have "max_finish_of (visited @ a # rest) (predecessors a) =
        max_finish_of visited (predecessors a)"
    by (rule max_finish_of_visited [OF later])
  moreover have "max_finish_of (visited' @ b # M) (predecessors a) =
        max_finish_of visited' (predecessors a)"
    by (rule max_finish_of_visited [OF later'])
  moreover have "max_finish_of visited (predecessors a) = max_finish_of visited' (predecessors a)"
    by (rule max_finish_of_cong)
       (rule find_pred_finish_cong [OF map_early_view_fields(3) [OF Cons.prems(3)]])
  ultimately have "early_view (forward_visit (visited @ a # rest) a) =
      early_view (forward_visit (visited' @ b # M) b)"
    using ab ps by (simp add: early_view_def forward_visit_def Let_def inputs_def)
  then have "map early_view (visited @ [forward_visit (visited @ a # rest) a]) =
      map early_view (visited' @ [forward_visit (visited' @ b # M) b])"
    using Cons.prems(3) by simp
  from Cons.IH [OF tl _ this] Cons.prems(2) show ?case by (simp add: rest')
qed

lemma added_in_order_last:
  assumes "added_in_order (xs @ a # ys)"
  shows "\<forall>x \<in> set (xs @ [a]). id_a a \<notin> set (predecessors x)"
  using assms by (induction xs) (auto simp: list_all_iff)

lemma successors_of_visited:
  assumes "added_in_order (xs @ a # ys)"
  shows "successors_of (xs @ a # ys) a = successors_of ys a"
  using added_in_order_last [OF assms] by (simp add: successors_of_def)

lemma backward_pass_rel:
  assumes "map early_view P = map early_view P'" "added_in_order (rev P @ V)"
  shows "backward_pass pd P V = backward_pass pd P' V"
  using assms
proof (induction P arbitrary: P' V)
  case Nil
  then show ?case by simp
next
  case (Cons a P)
  then obtain b M where P': "P' = b # M" by (cases P') auto
  with Cons.prems have ab: "early_view a = early_view b" and tl: "map early_view P = map early_view M"
    by simp_all
  have ord: "added_in_order (rev P @ a # V)" using Cons.prems(2) by simp
  have "map inputs (rev P @ a # V) = map inputs (rev M @ b # V)"
    using map_early_view_fields(1) [OF tl] ab
    by (simp add: rev_map [symmetric] early_view_eq_iff)
  with ord have ord': "added_in_order (rev M @ b # V)"
    using added_in_order_cong by blast
  have s: "successors_of (rev P @ a # V) a = successors_of V a"
    by (rule successors_of_visited [OF ord])
  have s': "successors_of (rev M @ b # V) b = successors_of V a"
    using successors_of_visited [OF ord'] ab
    by (simp add: successors_of_def early_view_eq_iff inputs_eq_iff)
  define lf where "lf = (case successors_of V a of
                  [] \<Rightarrow> pd
                | succ # others \<Rightarrow> fold min (map late_start others) (late_start succ))"
  have va: "backward_visit pd (rev P @ a # V) a =
      a\<lparr>late_finish := lf, late_start := lf - duration a,
        slack := lf - duration a - early_start a,
        is_critical := (lf - duration a - early_start a = 0)\<rparr>"
    by (simp add: backward_visit_def s Let_def lf_def)
  have vb: "backward_visit pd (rev M @ b # V) b =
      b\<lparr>late_finish := lf, late_start := lf - duration b,
        slack := lf - duration b - early_start b,
        is_critical := (lf - duration b - early_start b = 0)\<rparr>"
    by (simp add: backward_visit_def s' Let_def lf_def)
  have same: "backward_visit pd (rev P @ a # V) a = backward_visit pd (rev M @ b # V) b"
    unfolding va vb using ab
    by (intro activity.equality) (simp_all add: early_view_eq_iff inputs_eq_iff)
  have "map inputs (rev P @ backward_visit pd (rev P @ a # V) a # V) =
        map inputs (rev P @ a # V)"
    by (simp add: inputs_def)
  with ord have "added_in_order (rev P @ backward_visit pd (rev P @ a # V) a # V)"
    using added_in_order_cong by blast
  from Cons.IH [OF tl this] show ?case by (simp add: P' same)
qed

text \<open>
  With activities added in order, the outcome depends on the inputs of the activities
  only, not on what the computed fields held before.
\<close>

lemma calculate_cpm_inputs_only:
  assumes "added_in_order (activities self)"
    and "map inputs (activities self') = map inputs (activities self)"
  shows "fst (calculate_cpm self') = fst (calculate_cpm self) \<and>
         activities (snd (calculate_cpm self')) = activities (snd (calculate_cpm self))"
proof (cases "activities self = []")
  case True
  with assms(2) have "activities self' = []" by simp
  with True show ?thesis by (simp add: calculate_cpm_def)
next
  case False
  with assms(2) have ne: "activities self' \<noteq> []" by auto
  define F where "F = forward_pass [] (activities self)"
  define F' where "F' = forward_pass [] (activities self')"
  have ev: "map early_view F = map early_view F'"
    unfolding F_def F'_def
    by (rule forward_pass_rel) (use assms in simp_all)
  have "map early_finish F = map early_finish F'"
    by (rule map_early_view_fields(2) [OF ev])
  from arg_cong [OF this, of set]
  have img: "early_finish ` set F = early_finish ` set F'" by simp
  have "map inputs F = map inputs (activities self)" by (simp add: F_def)
  then have ord: "added_in_order F"
    using assms(1) added_in_order_cong by blast
  have rv: "map early_view (rev F) = map early_view (rev F')"
    using ev by (simp add: rev_map [symmetric])
  have bw: "backward_pass pd (rev F) [] = backward_pass pd (rev F') []" for pd
    by (rule backward_pass_rel [OF rv]) (simp add: ord)
  show ?thesis
    using False ne
    by (simp add: calculate_cpm_nonempty Let_def F_def [symmetric] F'_def [symmetric]
        img bw)
qed

section \<open>Idempotence\<close>

text \<open>
  Claim C4 says that for every activity collection two calls of \<open>calculate_cpm\<close> in a
  row give the same computed fields and the same result. When an activity was added
  before its predecessor, the first call reads the predecessor's \<open>early_finish\<close> as 0 and
  the second call reads the value the first call left there: the early start of the
  dependent activity is 0 after the first call and 2 after the second.
\<close>

theorem calculate_cpm_idempotent_counterexample:
  "calculate_cpm (snd (calculate_cpm out_of_order_example)) \<noteq>
     calculate_cpm out_of_order_example \<and>
   map early_start (activities (snd (calculate_cpm out_of_order_example))) = [0, 0] \<and>
   map early_start (activities (snd (calculate_cpm (snd (calculate_cpm out_of_order_example))))) =
     [2, 0]"
proof -
  have first: "activities (snd (calculate_cpm out_of_order_example)) =
      [\<lparr>id_a = 1, name = ''A'', duration = 3, predecessors = [2],
         early_start = 0, early_finish = 3, late_start = 0, late_finish = 3,
         slack = 0, is_critical = True\<rparr>,
       \<lparr>id_a = 2, name = ''B'', duration = 2, predecessors = [],
         early_start = 0, early_finish = 2, late_start = - 2,
         late_finish = 0, slack = - 2, is_critical = False\<rparr>]"
    by (simp add: example_defs calculate_cpm_def forward_visit_def backward_visit_def
        max_finish_of_def find_pred_def successors_of_def Let_def)
  have second: "activities (snd (calculate_cpm (snd (calculate_cpm out_of_order_example)))) =
      [\<lparr>id_a = 1, name = ''A'', duration = 3, predecessors = [2],
         early_start = 2, early_finish = 5, late_start = 2, late_finish = 5,
         slack = 0, is_critical = True\<rparr>,
       \<lparr>id_a = 2, name = ''B'', duration = 2, predecessors = [],
         early_start = 0, early_finish = 2, late_start = - 2,
         late_finish = 0, slack = - 2, is_critical = False\<rparr>]"
    by (simp add: calculate_cpm_def [of "snd (calculate_cpm out_of_order_example)"] first
        forward_visit_def backward_visit_def
        max_finish_of_def find_pred_def successors_of_def Let_def)
  have "activities (snd (calculate_cpm (snd (calculate_cpm out_of_order_example)))) \<noteq>
        activities (snd (calculate_cpm out_of_order_example))"
    unfolding first second by simp
  then have "calculate_cpm (snd (calculate_cpm out_of_order_example)) \<noteq>
     calculate_cpm out_of_order_example"
    by auto
  then show ?thesis by (simp add: first second)
qed

text \<open>
  Claim C4, amended: for every activity collection in which every predecessor was added
  before its dependents, a second call of \<open>calculate_cpm\<close> returns the same result and
  leaves the same state as the first.
\<close>

theorem calculate_cpm_idempotent:
  assumes "added_in_order (activities self)"
  shows "calculate_cpm (snd (calculate_cpm self)) = calculate_cpm self"
proof -
  have "map inputs (activities (snd (calculate_cpm self))) = map inputs (activities self)"
    by (simp add: calculate_cpm_def Let_def split: sum.splits)
  from calculate_cpm_inputs_only [OF assms this]
  have "fst (calculate_cpm (snd (calculate_cpm self))) = fst (calculate_cpm self)"
    and "activities (snd (calculate_cpm (snd (calculate_cpm self)))) =
         activities (snd (calculate_cpm self))"
    by simp_all
  then show ?thesis
    by (intro prod_eqI schedule_calculator.equality) simp_all
qed

theorem calculate_cpm_idempotent_witness:
  "added_in_order (activities parallel_example) \<and>
   calculate_cpm (snd (calculate_cpm parallel_example)) = calculate_cpm parallel_example"
  using calculate_cpm_idempotent [of parallel_example]
  by (simp add: example_defs)

section \<open>Early times\<close>

lemma forward_pass_prefix:
  "take (length visited) (forward_pass visited rest) = visited"
proof (induction rest arbitrary: visited)
  case Nil
  then show ?case by simp
next
  case (Cons a rest)
  have "take (length visited) (forward_pass (visited @ [forward_visit (visited @ a # rest) a]) rest) =
        take (length visited) (take (length (visited @ [forward_visit (visited @ a # rest) a]))
          (forward_pass (visited @ [forward_visit (visited @ a # rest) a]) rest))"
    by (simp add: min_def)
  also have "\<dots> = take (length visited) (visited @ [forward_visit (visited @ a # rest) a])"
    by (simp only: Cons.IH)
  finally show ?case by simp
qed

lemma forward_pass_split:
  "forward_pass visited rest = visited @ drop (length visited) (forward_pass visited rest)"
  using append_take_drop_id [of "length visited" "forward_pass visited rest"]
  by (simp add: forward_pass_prefix)

lemma forward_pass_split_app:
  "forward_pass (visited @ extra) rest =
     visited @ drop (length visited) (forward_pass (visited @ extra) rest)"
proof -
  have "forward_pass (visited @ extra) rest =
      (visited @ extra) @ drop (length (visited @ extra)) (forward_pass (visited @ extra) rest)"
    by (rule forward_pass_split)
  then have "take (length visited) (forward_pass (visited @ extra) rest) =
      take (length visited)
        ((visited @ extra) @ drop (length (visited @ extra)) (forward_pass (visited @ extra) rest))"
    by simp
  then have "take (length visited) (forward_pass (visited @ extra) rest) = visited"
    by simp
  then show ?thesis
    using append_take_drop_id [of "length visited" "forward_pass (visited @ extra) rest"]
    by simp
qed

lemma forward_pass_fixpoint:
  assumes "added_in_order rest"
  shows "\<forall>a \<in> set (drop (length visited) (forward_pass visited rest)).
           early_start a = (if predecessors a = [] then 0
                            else max_finish_of (forward_pass visited rest) (predecessors a))"
  using assms
proof (induction rest arbitrary: visited)
  case Nil
  then show ?case by simp
next
  case (Cons a rest)
  define a1 where "a1 = forward_visit (visited @ a # rest) a"
  define F where "F = forward_pass (visited @ [a1]) rest"
  define later where "later = drop (length visited) F"
  have F_split: "F = visited @ later"
    unfolding later_def F_def by (rule forward_pass_split_app)
  have "map inputs F = map inputs (visited @ a # rest)"
    by (simp add: F_def a1_def inputs_def)
  then have "map inputs (visited @ later) = map inputs (visited @ a # rest)"
    by (simp only: F_split [symmetric])
  then have "map inputs later = map inputs (a # rest)"
    by simp
  then have ids: "map id_a later = map id_a (a # rest)"
    by (rule map_inputs_fields(1))
  have cond: "list_all (\<lambda>x. id_a x \<notin> set (predecessors a)) (a # rest)"
    using Cons.prems by simp
  then have cond': "list_all (\<lambda>x. id_a x \<notin> set (predecessors a)) later"
    using ids by (simp only: list_all_ids)
  have m: "max_finish_of F (predecessors a) = max_finish_of (visited @ a # rest) (predecessors a)"
    using max_finish_of_visited [OF cond, of visited] max_finish_of_visited [OF cond', of visited]
    by (simp add: F_split [symmetric])
  have head: "early_start a1 = (if predecessors a1 = [] then 0
                            else max_finish_of F (predecessors a1))"
    by (simp add: a1_def forward_visit_def Let_def m)
  have "drop (length visited) F = a1 # drop (length (visited @ [a1])) F"
  proof -
    have "F = (visited @ [a1]) @ drop (length (visited @ [a1])) F"
      unfolding F_def by (rule forward_pass_split)
    then have "drop (length visited) F =
       drop (length visited) ((visited @ [a1]) @ drop (length (visited @ [a1])) F)"
      by simp
    then show ?thesis by simp
  qed
  moreover have "\<forall>x \<in> set (drop (length (visited @ [a1])) F).
           early_start x = (if predecessors x = [] then 0
                            else max_finish_of F (predecessors x))"
    unfolding F_def using Cons.IH [of "visited @ [a1]"] Cons.prems by simp
  ultimately show ?case
    using head by (simp add: F_def [symmetric] a1_def [symmetric])
qed

lemma find_pred_None: "find_pred L p = None \<longleftrightarrow> p \<notin> id_a ` set L"
  by (auto simp: find_pred_def find_None_iff)

lemma find_pred_Some: "find_pred L p = Some b \<Longrightarrow> b \<in> set L \<and> id_a b = p"
  unfolding find_pred_def by (induction L) (auto split: if_splits)

lemma distinct_ids_unique:
  assumes "distinct (map id_a L)" "b \<in> set L" "x \<in> set L" "id_a x = id_a b"
  shows "x = b"
  using assms by (auto simp: distinct_map dest: inj_onD)

lemma fold_max_finish_Max:
  assumes "distinct (map id_a L)"
  shows "fold (\<lambda>pred_id max_finish.
             case find_pred L pred_id of
               None \<Rightarrow> max_finish
             | Some pred \<Rightarrow> max max_finish (early_finish pred)) ps m =
         Max (insert m (early_finish ` {b \<in> set L. id_a b \<in> set ps}))"
proof (induction ps arbitrary: m)
  case Nil
  then show ?case by simp
next
  case (Cons p ps)
  let ?A = "early_finish ` {b \<in> set L. id_a b \<in> set ps}"
  have finA: "finite ?A" by simp
  show ?case
  proof (cases "find_pred L p")
    case None
    then have "{b \<in> set L. id_a b \<in> set (p # ps)} = {b \<in> set L. id_a b \<in> set ps}"
      by (auto simp: find_pred_None)
    with None Cons.IH [of m] show ?thesis by simp
  next
    case (Some b)
    from find_pred_Some [OF Some] have b: "b \<in> set L" "id_a b = p" by simp_all
    have u: "x = b" if "x \<in> set L" "id_a x = p" for x
      using distinct_ids_unique [OF assms b(1) that(1)] that(2) b(2) by simp
    have "{x \<in> set L. id_a x \<in> set (p # ps)} = insert b {x \<in> set L. id_a x \<in> set ps}"
      using u b by fastforce
    then have img: "early_finish ` {x \<in> set L. id_a x \<in> set (p # ps)} =
        insert (early_finish b) ?A"
      by (simp only: image_insert)
    have mx: "Max (insert (max m (early_finish b)) ?A) =
                   Max (insert m (insert (early_finish b) ?A))"
    proof (cases "?A = {}")
      case True
      show ?thesis by (simp only: True) simp
    next
      case False
      have "Max (insert (max m (early_finish b)) ?A) = max (max m (early_finish b)) (Max ?A)"
        by (rule Max_insert [OF finA False])
      moreover have "Max (insert m (insert (early_finish b) ?A)) =
          max m (max (early_finish b) (Max ?A))"
        using Max_insert [OF finA False, of "early_finish b"]
          Max_insert [of "insert (early_finish b) ?A" m] finA
        by simp
      ultimately show ?thesis by (simp only: max.assoc)
    qed
    have "fold (\<lambda>pred_id max_finish.
             case find_pred L pred_id of
               None \<Rightarrow> max_finish
             | Some pred \<Rightarrow> max max_finish (early_finish pred)) (p # ps) m =
          Max (insert (max m (early_finish b)) ?A)"
      using Some Cons.IH [of "max m (early_finish b)"] by simp
    then show ?thesis by (simp only: mx img)
  qed
qed

lemma max_finish_of_Max:
  assumes "distinct (map id_a L)"
  shows "max_finish_of L ps = Max (insert 0 (early_finish ` {b \<in> set L. id_a b \<in> set ps}))"
  unfolding max_finish_of_def by (rule fold_max_finish_Max [OF assms])

lemma max_finish_of_spec:
  assumes "distinct (map id_a L)" "\<forall>b \<in> set L. 0 \<le> early_finish b"
  shows "(if predecessors a = [] then 0 else max_finish_of L (predecessors a)) =
         spec_early_start L a"
proof -
  let ?S = "early_finish ` {b \<in> set L. id_a b \<in> set (predecessors a)}"
  have S: "set (map early_finish (filter (\<lambda>b. id_a b \<in> set (predecessors a)) L)) = ?S"
    by auto
  have emp: "(map early_finish (filter (\<lambda>b. id_a b \<in> set (predecessors a)) L) = []) =
             (?S = {})"
    by (auto simp: filter_empty_conv)
  have spec: "spec_early_start L a = (if ?S = {} then 0 else Max ?S)"
    unfolding spec_early_start_def Let_def emp S by (rule refl)
  have fin: "finite ?S" by simp
  have nonneg: "\<forall>x \<in> ?S. 0 \<le> x" using assms(2) by auto
  have code: "max_finish_of L (predecessors a) = Max (insert 0 ?S)"
    by (rule max_finish_of_Max [OF assms(1)])
  show ?thesis
  proof (cases "?S = {}")
    case True
    show ?thesis unfolding spec code by (simp only: True) simp
  next
    case False
    then have "predecessors a \<noteq> []" by auto
    then have lhs: "(if predecessors a = [] then 0 else max_finish_of L (predecessors a)) =
        max_finish_of L (predecessors a)"
      by (rule if_not_P)
    have rhs: "(if ?S = {} then 0 else Max ?S) = Max ?S"
      using False by (rule if_not_P)
    have pos: "0 \<le> Max ?S" using Max_in [OF fin False] nonneg by blast
    have "Max (insert 0 ?S) = max 0 (Max ?S)" by (rule Max_insert [OF fin False])
    also have "\<dots> = Max ?S" using pos by (rule max_absorb2)
    finally have mx: "Max (insert 0 ?S) = Max ?S" .
    note lhs
    also note code
    also note mx
    also note rhs [symmetric]
    also note spec [symmetric]
    finally show ?thesis .
  qed
qed

lemma fold_max_finish_ge:
  "m \<le> fold (\<lambda>pred_id max_finish.
             case find_pred L pred_id of
               None \<Rightarrow> max_finish
             | Some pred \<Rightarrow> max max_finish (early_finish pred)) ps m"
proof (induction ps arbitrary: m)
  case Nil
  then show ?case by simp
next
  case (Cons p ps)
  have "m \<le> (case find_pred L p of None \<Rightarrow> m | Some pred \<Rightarrow> max m (early_finish pred))"
    by (simp split: option.splits)
  also have "\<dots> \<le> fold (\<lambda>pred_id max_finish.
             case find_pred L pred_id of
               None \<Rightarrow> max_finish
             | Some pred \<Rightarrow> max max_finish (early_finish pred)) ps
          (case find_pred L p of None \<Rightarrow> m | Some pred \<Rightarrow> max m (early_finish pred))"
    by (rule Cons.IH)
  finally show ?case by simp
qed

lemma max_finish_of_nonneg: "0 \<le> max_finish_of L ps"
  unfolding max_finish_of_def by (rule fold_max_finish_ge)

lemma forward_visit_nonneg:
  "0 \<le> duration (forward_visit acts a) \<longrightarrow> 0 \<le> early_finish (forward_visit acts a)"
  using max_finish_of_nonneg [of acts "predecessors a"]
  by (simp add: forward_visit_def Let_def)

lemma spec_early_start_cong:
  assumes "map early_view L = map early_view L'" "early_view a = early_view a'"
  shows "spec_early_start L a = spec_early_start L' a'"
proof -
  have k: "map early_finish (filter (\<lambda>b. id_a b \<in> S) M) =
        map snd (filter (\<lambda>x. fst x \<in> S) (map (\<lambda>b. (id_a b, early_finish b)) M))" for S M
    by (induction M) simp_all
  have "map early_finish (filter (\<lambda>b. id_a b \<in> S) L) =
        map early_finish (filter (\<lambda>b. id_a b \<in> S) L')" for S
    unfolding k map_early_view_fields(3) [OF assms(1)] by (rule refl)
  moreover have "predecessors a = predecessors a'"
    using assms(2) by (simp add: early_view_eq_iff inputs_eq_iff)
  ultimately show ?thesis by (simp add: spec_early_start_def)
qed

text \<open>The early times satisfy the reference recursion.\<close>

lemma filter_map_inputs_cong:
  assumes "map inputs L = map inputs L'"
    and "\<And>x x'. inputs x = inputs x' \<Longrightarrow> f x = g x'"
  shows "map f (filter (\<lambda>b. id_a b \<in> S) L) = map g (filter (\<lambda>b. id_a b \<in> S) L')"
  using assms(1)
proof (induction L arbitrary: L')
  case Nil
  then show ?case by simp
next
  case (Cons x L)
  then obtain x' M where L': "L' = x' # M" by (cases L') auto
  with Cons.prems have xx: "inputs x = inputs x'" and tl: "map inputs L = map inputs M"
    by simp_all
  from xx have "id_a x = id_a x'" by (simp add: inputs_eq_iff)
  with Cons.IH [OF tl] assms(2) [OF xx] show ?case by (simp add: L')
qed

lemma longest_path_finish_cong:
  assumes "map inputs L = map inputs L'" "inputs a = inputs a'"
  shows "longest_path_finish n L a = longest_path_finish n L' a'"
  using assms(2)
proof (induction n arbitrary: a a')
  case 0
  then show ?case by simp
next
  case (Suc n)
  have "map (longest_path_finish n L) (filter (\<lambda>b. id_a b \<in> set (predecessors a)) L) =
        map (longest_path_finish n L') (filter (\<lambda>b. id_a b \<in> set (predecessors a)) L')"
    by (rule filter_map_inputs_cong [OF assms(1)]) (rule Suc.IH)
  moreover have "predecessors a = predecessors a'" "duration a = duration a'"
    using Suc.prems by (simp_all add: inputs_eq_iff)
  ultimately show ?case by (simp add: Let_def)
qed

lemma added_in_order_preds_before:
  assumes "added_in_order (xs @ a # ys)"
  shows "filter (\<lambda>b. id_a b \<in> set (predecessors a)) (xs @ a # ys) =
         filter (\<lambda>b. id_a b \<in> set (predecessors a)) xs"
  using assms by (induction xs) (auto simp: list_all_iff)

lemma longest_path_finish_fixpoint:
  assumes "added_in_order R"
    and "\<forall>a \<in> set R. early_start a = spec_early_start R a \<and>
           early_finish a = early_start a + duration a"
  shows "R = xs @ a # ys \<Longrightarrow> length xs < n \<Longrightarrow> longest_path_finish n R a = early_finish a"
proof (induction n arbitrary: xs a ys)
  case 0
  then show ?case by simp
next
  case (Suc n)
  let ?P = "\<lambda>b. id_a b \<in> set (predecessors a)"
  have before: "filter ?P R = filter ?P xs"
    using added_in_order_preds_before [of xs a ys] assms(1) Suc.prems(1) by simp
  have "longest_path_finish n R b = early_finish b" if "b \<in> set (filter ?P R)" for b
  proof -
    from that before have "b \<in> set xs" by simp
    then obtain us vs where xs: "xs = us @ b # vs" by (meson split_list)
    then have "R = us @ b # (vs @ a # ys)" using Suc.prems(1) by simp
    moreover have "length us < n" using xs Suc.prems(2) by simp
    ultimately show ?thesis by (rule Suc.IH)
  qed
  then have "map (longest_path_finish n R) (filter ?P R) = map early_finish (filter ?P R)"
    by (intro map_cong) simp_all
  then have "longest_path_finish (Suc n) R a = spec_early_start R a + duration a"
    by (simp add: Let_def spec_early_start_def)
  moreover have "a \<in> set R" using Suc.prems(1) by simp
  ultimately show ?case using assms(2) by simp
qed

lemma longest_path_finish_result:
  assumes "added_in_order R"
    and "\<forall>a \<in> set R. early_start a = spec_early_start R a \<and>
           early_finish a = early_start a + duration a"
  shows "map early_finish R = map (longest_path_finish (length R) R) R"
proof (rule nth_equalityI)
  show "length (map early_finish R) = length (map (longest_path_finish (length R) R) R)"
    by simp
next
  fix i assume "i < length (map early_finish R)"
  then have i: "i < length R" by simp
  then have "R = take i R @ R ! i # drop (Suc i) R" by (rule id_take_nth_drop)
  moreover have "length (take i R) < length R" using i by simp
  ultimately have "longest_path_finish (length R) R (R ! i) = early_finish (R ! i)"
    by (rule longest_path_finish_fixpoint [OF assms])
  with i show "map early_finish R ! i = map (longest_path_finish (length R) R) R ! i"
    by simp
qed

lemma duplicate_id_example_result:
  "activities (snd (calculate_cpm duplicate_id_example)) =
     [\<lparr>id_a = 1, name = ''A'', duration = 3, predecessors = [],
        early_start = 0, early_finish = 3, late_start = 1, late_finish = 4,
        slack = 1, is_critical = False\<rparr>,
      \<lparr>id_a = 1, name = ''A2'', duration = 5, predecessors = [],
        early_start = 0, early_finish = 5, late_start = - 1, late_finish = 4,
        slack = - 1, is_critical = False\<rparr>,
      \<lparr>id_a = 2, name = ''B'', duration = 1, predecessors = [1],
        early_start = 3, early_finish = 4, late_start = 4, late_finish = 5,
        slack = 1, is_critical = False\<rparr>]"
  by (simp add: duplicate_id_example_def example_defs calculate_cpm_def forward_visit_def
      backward_visit_def max_finish_of_def find_pred_def successors_of_def Let_def)

lemma negative_duration_example_result:
  "activities (snd (calculate_cpm negative_duration_example)) =
     [\<lparr>id_a = 1, name = ''A'', duration = - 3, predecessors = [],
        early_start = 0, early_finish = - 3, late_start = 3, late_finish = 0,
        slack = 3, is_critical = False\<rparr>,
      \<lparr>id_a = 2, name = ''B'', duration = 1, predecessors = [1],
        early_start = 0, early_finish = 1, late_start = 0, late_finish = 1,
        slack = 0, is_critical = True\<rparr>]"
  by (simp add: negative_duration_example_def example_defs calculate_cpm_def forward_visit_def
      backward_visit_def max_finish_of_def find_pred_def successors_of_def Let_def)

text \<open>
  Claim C1 says that the early start is the maximum \<open>early_finish\<close> of the activities
  named in the predecessor list whenever the activities form a DAG and every predecessor
  was added before its dependents. The lookup of a predecessor id takes the first activity
  with that id, and the maximum starts from 0. With two activities of id 1 that finish on
  days 3 and 5, the activity that waits for id 1 starts on day 3, not 5; after an activity
  of duration -3 that finishes on day -3, its dependent starts on day 0, not -3.
\<close>

theorem calculate_cpm_early_times_counterexample:
  "added_in_order (activities duplicate_id_example) \<and>
   \<not> cyclic (activities duplicate_id_example) \<and>
   map early_start (activities (snd (calculate_cpm duplicate_id_example))) = [0, 0, 3] \<and>
   map (spec_early_start (activities (snd (calculate_cpm duplicate_id_example))))
     (activities (snd (calculate_cpm duplicate_id_example))) = [0, 0, 5] \<and>
   added_in_order (activities negative_duration_example) \<and>
   \<not> cyclic (activities negative_duration_example) \<and>
   map early_start (activities (snd (calculate_cpm negative_duration_example))) = [0, 0] \<and>
   map (spec_early_start (activities (snd (calculate_cpm negative_duration_example))))
     (activities (snd (calculate_cpm negative_duration_example))) = [0, - 3]"
proof -
  have "added_in_order (activities duplicate_id_example)"
    "added_in_order (activities negative_duration_example)"
    by (simp_all add: duplicate_id_example_def negative_duration_example_def example_defs)
  moreover have "\<not> cyclic (activities duplicate_id_example)"
    "\<not> cyclic (activities negative_duration_example)"
    by code_simp+
  moreover have
    "map early_start (activities (snd (calculate_cpm duplicate_id_example))) = [0, 0, 3]"
    "map (spec_early_start (activities (snd (calculate_cpm duplicate_id_example))))
       (activities (snd (calculate_cpm duplicate_id_example))) = [0, 0, 5]"
    unfolding duplicate_id_example_result by (simp_all add: spec_early_start_def)
  moreover have
    "map early_start (activities (snd (calculate_cpm negative_duration_example))) = [0, 0]"
    "map (spec_early_start (activities (snd (calculate_cpm negative_duration_example))))
       (activities (snd (calculate_cpm negative_duration_example))) = [0, - 3]"
    unfolding negative_duration_example_result by (simp_all add: spec_early_start_def)
  ultimately show ?thesis by (intro conjI)
qed

text \<open>
  Claim C1, amended: for a non-empty collection of activities with unique ids and non-negative
  durations, added so that every predecessor comes before its dependents (hence a DAG),
  \<open>calculate_cpm\<close> gives every activity the early start of the specification (the
  maximum \<open>early_finish\<close> of the activities named in its predecessor list, 0 when there is
  none) and \<open>early_finish = early_start + duration\<close>, and the project duration is the
  maximum \<open>early_finish\<close>. The early finish times are those of the recursive longest-path
  reference computed from the activities as they were given.
\<close>

theorem calculate_cpm_early_times:
  assumes "activities self \<noteq> []"
    and "distinct (map id_a (activities self))"
    and "added_in_order (activities self)"
    and "\<forall>a \<in> set (activities self). 0 \<le> duration a"
  shows "\<exists>r self'. calculate_cpm self = (Inr r, self') \<and>
           map inputs (result_activities r) = map inputs (activities self) \<and>
           (\<forall>a \<in> set (result_activities r).
              early_start a = spec_early_start (result_activities r) a \<and>
              early_finish a = early_start a + duration a) \<and>
           project_duration r = Max (early_finish ` set (result_activities r)) \<and>
           map early_finish (result_activities r) =
             map (longest_path_finish (length (activities self)) (activities self))
               (activities self)"
proof -
  define F where "F = forward_pass [] (activities self)"
  define pd where "pd = Max (early_finish ` set F)"
  define B where "B = backward_pass pd (rev F) []"
  have inF: "map inputs F = map inputs (activities self)" by (simp add: F_def)
  have idsF: "map id_a F = map id_a (activities self)"
    by (rule map_inputs_fields(1) [OF inF])
  have distF: "distinct (map id_a F)" using assms(2) by (simp only: idsF)
  have "map duration F = map duration (activities self)"
    unfolding F_def by (simp add: forward_pass_map)
  from arg_cong [OF this, of set]
  have deq: "duration ` set F = duration ` set (activities self)" by simp
  have durF: "\<forall>a \<in> set F. 0 \<le> duration a"
  proof
    fix a assume "a \<in> set F"
    then have "duration a \<in> duration ` set F" by simp
    then have "duration a \<in> duration ` set (activities self)" by (simp only: deq)
    then obtain b where "b \<in> set (activities self)" "duration a = duration b" by auto
    with assms(4) show "0 \<le> duration a" by simp
  qed
  have "\<forall>a \<in> set F. 0 \<le> duration a \<longrightarrow> 0 \<le> early_finish a"
    unfolding F_def by (rule forward_pass_all) (rule forward_visit_nonneg, simp)
  with durF have nonneg: "\<forall>a \<in> set F. 0 \<le> early_finish a" by simp
  have fp: "\<forall>a \<in> set F. early_start a =
      (if predecessors a = [] then 0 else max_finish_of F (predecessors a))"
    using forward_pass_fixpoint [OF assms(3), of "[]"] by (simp add: F_def)
  have specF: "\<forall>a \<in> set F. early_start a = spec_early_start F a"
    using fp max_finish_of_spec [OF distF nonneg] by simp
  have sumF: "\<forall>a \<in> set F. early_finish a = early_start a + duration a"
    unfolding F_def by (rule forward_pass_all) simp_all
  have evB: "map early_view B = map early_view F" by (simp add: B_def)
  have specB: "\<forall>a \<in> set B. early_start a = spec_early_start B a \<and>
      early_finish a = early_start a + duration a"
  proof
    fix a assume "a \<in> set B"
    then have "early_view a \<in> set (map early_view B)" by simp
    then have "early_view a \<in> set (map early_view F)" by (simp only: evB)
    then obtain b where b: "b \<in> set F" "early_view a = early_view b" by auto
    have "spec_early_start B a = spec_early_start F b"
      by (rule spec_early_start_cong [OF evB b(2)])
    moreover have "early_start a = early_start b" "early_finish a = early_finish b"
      "duration a = duration b"
      using b(2) by (simp_all add: early_view_eq_iff inputs_eq_iff)
    ultimately show "early_start a = spec_early_start B a \<and>
      early_finish a = early_start a + duration a"
      using specF sumF b(1) by simp
  qed
  have "map early_finish B = map early_finish F"
    by (rule map_early_view_fields(2) [OF evB])
  from arg_cong [OF this, of set] have img: "early_finish ` set B = early_finish ` set F"
    by simp
  have inB: "map inputs B = map inputs (activities self)"
    using map_early_view_fields(1) [OF evB] inF by simp
  have "added_in_order B" using assms(3) added_in_order_cong [OF inB] by simp
  then have "map early_finish B = map (longest_path_finish (length B) B) B"
    using specB by (rule longest_path_finish_result)
  also have "length B = length (activities self)"
    using arg_cong [OF inB, of length] by simp
  also have "map (longest_path_finish (length (activities self)) B) B =
      map (longest_path_finish (length (activities self)) (activities self)) (activities self)"
    using filter_map_inputs_cong [OF inB, of "longest_path_finish (length (activities self)) B"
        "longest_path_finish (length (activities self)) (activities self)" UNIV]
      longest_path_finish_cong [OF inB]
    by simp
  finally have ref: "map early_finish B =
      map (longest_path_finish (length (activities self)) (activities self)) (activities self)" .
  show ?thesis
    using assms(1) specB inB img ref
    by (simp add: calculate_cpm_nonempty Let_def F_def [symmetric] pd_def [symmetric]
        B_def [symmetric])
qed


theorem calculate_cpm_early_times_witness:
  "activities parallel_example \<noteq> [] \<and>
   distinct (map id_a (activities parallel_example)) \<and>
   added_in_order (activities parallel_example) \<and>
   list_all (\<lambda>a. 0 \<le> duration a) (activities parallel_example) \<and>
   (\<exists>r self'. calculate_cpm parallel_example = (Inr r, self') \<and>
           map inputs (result_activities r) = map inputs (activities parallel_example) \<and>
           (\<forall>a \<in> set (result_activities r).
              early_start a = spec_early_start (result_activities r) a \<and>
              early_finish a = early_start a + duration a) \<and>
           project_duration r = Max (early_finish ` set (result_activities r)) \<and>
           map early_finish (result_activities r) = [3, 8, 5, 9])"
  using calculate_cpm_early_times [of parallel_example]
  by (simp add: example_defs)

section \<open>Predecessor ids without an activity\<close>

lemma without_dangling_fields [simp]:
  "id_a (without_dangling K a) = id_a a"
  "name (without_dangling K a) = name a"
  "duration (without_dangling K a) = duration a"
  "predecessors (without_dangling K a) = filter (\<lambda>p. p \<in> K) (predecessors a)"
  "early_start (without_dangling K a) = early_start a"
  "early_finish (without_dangling K a) = early_finish a"
  "late_start (without_dangling K a) = late_start a"
  "late_finish (without_dangling K a) = late_finish a"
  "slack (without_dangling K a) = slack a"
  "is_critical (without_dangling K a) = is_critical a"
  by (simp_all add: without_dangling_def)

lemma find_pred_without_dangling:
  "find_pred (map (without_dangling K) L) p = map_option (without_dangling K) (find_pred L p)"
  unfolding find_pred_def by (induction L) simp_all

lemma fold_filter_skip:
  assumes "\<And>x m. x \<in> set xs \<Longrightarrow> \<not> P x \<Longrightarrow> f x m = m"
  shows "fold f (filter P xs) m = fold f xs m"
  using assms by (induction xs arbitrary: m) simp_all

lemma max_finish_of_without_dangling:
  assumes "id_a ` set L \<subseteq> K"
  shows "max_finish_of (map (without_dangling K) L) (filter (\<lambda>p. p \<in> K) ps) =
         max_finish_of L ps"
proof -
  have skip: "(case find_pred L p of None \<Rightarrow> m | Some pred \<Rightarrow> max m (early_finish pred)) = m"
    if "p \<notin> K" for p and m :: int
  proof -
    from that assms have "p \<notin> id_a ` set L" by auto
    then have "find_pred L p = None" by (simp add: find_pred_None)
    then show ?thesis by simp
  qed
  have same: "(\<lambda>pred_id max_finish.
             case find_pred (map (without_dangling K) L) pred_id of
               None \<Rightarrow> max_finish
             | Some pred \<Rightarrow> max max_finish (early_finish pred)) =
        (\<lambda>pred_id max_finish.
             case find_pred L pred_id of
               None \<Rightarrow> max_finish
             | Some pred \<Rightarrow> max max_finish (early_finish pred))"
    by (intro ext) (simp add: find_pred_without_dangling split: option.splits)
  show ?thesis
    unfolding max_finish_of_def same
    by (rule fold_filter_skip) (simp add: skip)
qed

lemma max_finish_of_Nil [simp]: "max_finish_of L [] = 0"
  by (simp add: max_finish_of_def)

lemma forward_visit_without_dangling:
  assumes "id_a ` set L \<subseteq> K"
  shows "forward_visit (map (without_dangling K) L) (without_dangling K a) =
         without_dangling K (forward_visit L a)"
proof -
  define es where "es = max_finish_of L (predecessors a)"
  have l: "forward_visit L a = a\<lparr>early_start := es, early_finish := es + duration a\<rparr>"
    by (simp add: forward_visit_def Let_def es_def)
  have "(if filter (\<lambda>p. p \<in> K) (predecessors a) = [] then 0
         else max_finish_of (map (without_dangling K) L) (filter (\<lambda>p. p \<in> K) (predecessors a))) =
        max_finish_of (map (without_dangling K) L) (filter (\<lambda>p. p \<in> K) (predecessors a))"
    by simp
  also have "\<dots> = es"
    unfolding es_def by (rule max_finish_of_without_dangling [OF assms])
  finally have e: "(if filter (\<lambda>p. p \<in> K) (predecessors a) = [] then 0
         else max_finish_of (map (without_dangling K) L) (filter (\<lambda>p. p \<in> K) (predecessors a))) =
        es" .
  have r: "forward_visit (map (without_dangling K) L) (without_dangling K a) =
      (without_dangling K a)\<lparr>early_start := es, early_finish := es + duration a\<rparr>"
    unfolding forward_visit_def Let_def without_dangling_fields e by (rule refl)
  show ?thesis unfolding l r by (simp add: without_dangling_def)
qed

lemma forward_pass_without_dangling:
  assumes "id_a ` set (visited @ rest) \<subseteq> K"
  shows "forward_pass (map (without_dangling K) visited) (map (without_dangling K) rest) =
         map (without_dangling K) (forward_pass visited rest)"
  using assms
proof (induction rest arbitrary: visited)
  case Nil
  then show ?case by simp
next
  case (Cons a rest)
  have v: "forward_visit (map (without_dangling K) (visited @ a # rest)) (without_dangling K a) =
      without_dangling K (forward_visit (visited @ a # rest) a)"
    by (rule forward_visit_without_dangling [OF Cons.prems])
  have "id_a ` set ((visited @ [forward_visit (visited @ a # rest) a]) @ rest) \<subseteq> K"
    using Cons.prems by auto
  from Cons.IH [OF this] v show ?case by simp
qed

lemma successors_of_without_dangling:
  assumes "id_a a \<in> K"
  shows "successors_of (map (without_dangling K) L) (without_dangling K a) =
         map (without_dangling K) (successors_of L a)"
  using assms by (simp add: successors_of_def filter_map comp_def)

lemma backward_visit_without_dangling:
  assumes "id_a a \<in> K"
  shows "backward_visit pd (map (without_dangling K) L) (without_dangling K a) =
         without_dangling K (backward_visit pd L a)"
proof -
  define lf where "lf = (case successors_of L a of
                  [] \<Rightarrow> pd
                | succ # others \<Rightarrow> fold min (map late_start others) (late_start succ))"
  have l: "backward_visit pd L a =
      a\<lparr>late_finish := lf, late_start := lf - duration a,
        slack := lf - duration a - early_start a,
        is_critical := (lf - duration a - early_start a = 0)\<rparr>"
    by (simp add: backward_visit_def Let_def lf_def)
  have "(case map (without_dangling K) S of
                  [] \<Rightarrow> pd
                | succ # others \<Rightarrow> fold min (map late_start others) (late_start succ)) =
        (case S of
                  [] \<Rightarrow> pd
                | succ # others \<Rightarrow> fold min (map late_start others) (late_start succ))" for S
    by (cases S) (simp_all add: comp_def)
  then have c: "(case successors_of (map (without_dangling K) L) (without_dangling K a) of
                  [] \<Rightarrow> pd
                | succ # others \<Rightarrow> fold min (map late_start others) (late_start succ)) = lf"
    unfolding successors_of_without_dangling [OF assms] lf_def .
  have r: "backward_visit pd (map (without_dangling K) L) (without_dangling K a) =
      (without_dangling K a)\<lparr>late_finish := lf, late_start := lf - duration a,
        slack := lf - duration a - early_start a,
        is_critical := (lf - duration a - early_start a = 0)\<rparr>"
    by (simp add: backward_visit_def Let_def c)
  show ?thesis unfolding l r by (simp add: without_dangling_def)
qed

lemma backward_pass_without_dangling:
  assumes "id_a ` set pending \<subseteq> K"
  shows "backward_pass pd (map (without_dangling K) pending) (map (without_dangling K) visited) =
         map (without_dangling K) (backward_pass pd pending visited)"
  using assms
proof (induction pending arbitrary: visited)
  case Nil
  then show ?case by simp
next
  case (Cons a pending)
  have "id_a a \<in> K" using Cons.prems by simp
  from backward_visit_without_dangling [OF this, of pd "rev pending @ a # visited"]
  have v: "backward_visit pd
        (rev (map (without_dangling K) pending) @ without_dangling K a #
           map (without_dangling K) visited) (without_dangling K a) =
      without_dangling K (backward_visit pd (rev pending @ a # visited) a)"
    by (simp add: rev_map)
  have "id_a ` set pending \<subseteq> K" using Cons.prems by simp
  from Cons.IH [OF this, of "backward_visit pd (rev pending @ a # visited) a # visited"] v
  show ?case by simp
qed

lemma forward_visit_no_predecessors:
  "predecessors (forward_visit acts a) = [] \<longrightarrow> early_start (forward_visit acts a) = 0"
  by (simp add: forward_visit_def Let_def)

text \<open>
  Claim C5: a predecessor id that matches no activity raises nothing and behaves as if
  it were absent. \<open>calculate_cpm\<close> returns a result, and the run on the same activities
  with such ids removed from the predecessor lists returns the same result and state, up
  to those lists; an activity all of whose predecessor ids are unknown starts at 0.
\<close>

theorem dangling_predecessors_ignored:
  assumes "activities self \<noteq> []"
  shows "\<exists>r self'. calculate_cpm self = (Inr r, self') \<and>
           calculate_cpm (self\<lparr>activities := drop_dangling (activities self)\<rparr>) =
             (Inr (r\<lparr>result_activities := drop_dangling (result_activities r),
                     critical_activities :=
                       filter is_critical (drop_dangling (result_activities r))\<rparr>),
              self'\<lparr>activities := drop_dangling (activities self')\<rparr>) \<and>
           (\<forall>a \<in> set (result_activities r).
              set (predecessors a) \<inter> id_a ` set (activities self) = {} \<longrightarrow>
              early_start a = 0)"
proof -
  define K where "K = id_a ` set (activities self)"
  define F where "F = forward_pass [] (activities self)"
  define pd where "pd = Max (early_finish ` set F)"
  define B where "B = backward_pass pd (rev F) []"
  let ?wd = "without_dangling K"
  have idsF: "map id_a F = map id_a (activities self)"
    by (simp add: F_def forward_pass_map)
  have idsB: "map id_a B = map id_a (activities self)"
    by (simp add: B_def backward_pass_map idsF)
  from arg_cong [OF idsF, of set] have KF: "id_a ` set F = K" by (simp add: K_def)
  from arg_cong [OF idsB, of set] have KB: "id_a ` set B = K" by (simp add: K_def)
  have dropB: "drop_dangling B = map ?wd B" by (simp add: drop_dangling_def KB)
  have drop0: "drop_dangling (activities self) = map ?wd (activities self)"
    by (simp add: drop_dangling_def K_def)
  have fw: "forward_pass [] (map ?wd (activities self)) = map ?wd F"
    using forward_pass_without_dangling [of "[]" "activities self" K]
    by (simp add: F_def K_def)
  have img: "early_finish ` set (map ?wd F) = early_finish ` set F"
    by (simp add: image_image)
  have bw: "backward_pass pd (rev (map ?wd F)) [] = map ?wd B"
    using backward_pass_without_dangling [of "rev F" K pd "[]"] KF
    by (simp add: B_def rev_map)
  have crit: "filter is_critical (map ?wd B) = map ?wd (filter is_critical B)"
    by (simp add: filter_map comp_def)
  have ne: "map ?wd (activities self) \<noteq> []" using assms by simp
  have run: "calculate_cpm self =
      (Inr \<lparr>result_activities = B, project_duration = pd,
            critical_path = map id_a (filter is_critical B),
            critical_activities = filter is_critical B\<rparr>, self\<lparr>activities := B\<rparr>)"
    using assms
    by (simp add: calculate_cpm_nonempty Let_def F_def [symmetric] pd_def [symmetric]
        B_def [symmetric])
  have run': "calculate_cpm (self\<lparr>activities := drop_dangling (activities self)\<rparr>) =
      (Inr \<lparr>result_activities = map ?wd B, project_duration = pd,
            critical_path = map id_a (filter is_critical B),
            critical_activities = filter is_critical (map ?wd B)\<rparr>,
       self\<lparr>activities := map ?wd B\<rparr>)"
    using ne
    by (simp add: calculate_cpm_nonempty Let_def drop0 fw img pd_def [symmetric] bw crit
        del: set_map)
  have "\<forall>a \<in> set (forward_pass [] (map ?wd (activities self))).
          predecessors a = [] \<longrightarrow> early_start a = 0"
    by (rule forward_pass_all) (rule forward_visit_no_predecessors, simp)
  then have "\<forall>a \<in> set (rev (map ?wd F)). predecessors a = [] \<longrightarrow> early_start a = 0"
    by (simp add: fw)
  then have "\<forall>a \<in> set (backward_pass pd (rev (map ?wd F)) []).
          predecessors a = [] \<longrightarrow> early_start a = 0"
    by (rule backward_pass_all [rotated]) simp_all
  then have zero: "\<forall>a \<in> set B. filter (\<lambda>p. p \<in> K) (predecessors a) = [] \<longrightarrow> early_start a = 0"
    by (simp add: bw)
  have only: "\<forall>a \<in> set B. set (predecessors a) \<inter> K = {} \<longrightarrow> early_start a = 0"
  proof (intro ballI impI)
    fix a assume "a \<in> set B" "set (predecessors a) \<inter> K = {}"
    then have "filter (\<lambda>p. p \<in> K) (predecessors a) = []"
      by (auto simp: filter_empty_conv)
    with zero \<open>a \<in> set B\<close> show "early_start a = 0" by simp
  qed
  show ?thesis
    unfolding run run' K_def [symmetric]
    using only by (simp add: dropB)
qed

theorem dangling_predecessors_ignored_witness:
  "activities dangling_example \<noteq> [] \<and>
   (\<exists>r self'. calculate_cpm dangling_example = (Inr r, self') \<and>
           calculate_cpm (dangling_example\<lparr>activities :=
               drop_dangling (activities dangling_example)\<rparr>) =
             (Inr (r\<lparr>result_activities := drop_dangling (result_activities r),
                     critical_activities :=
                       filter is_critical (drop_dangling (result_activities r))\<rparr>),
              self'\<lparr>activities := drop_dangling (activities self')\<rparr>) \<and>
           (\<forall>a \<in> set (result_activities r).
              set (predecessors a) \<inter> id_a ` set (activities dangling_example) = {} \<longrightarrow>
              early_start a = 0)) \<and>
   map predecessors (activities dangling_example) = [[99], [1, 77]] \<and>
   map predecessors (drop_dangling (activities dangling_example)) = [[], [1]]"
proof -
  have "activities dangling_example \<noteq> []"
    by (simp add: dangling_example_def example_defs)
  moreover note dangling_predecessors_ignored [OF this]
  moreover have "map predecessors (activities dangling_example) = [[99], [1, 77]]"
    "map predecessors (drop_dangling (activities dangling_example)) = [[], [1]]"
    by (simp_all add: dangling_example_def example_defs drop_dangling_def)
  ultimately show ?thesis by (intro conjI)
qed

section \<open>The S-curve\<close>




















text \<open>
  The function returns a series exactly when no duration is 0 and every day it touches
  is a day of the calendar.
\<close>

lemma spread_days_returns:
  "(\<exists>dc'. spread_days strftime s c days dc = Inr dc') \<longleftrightarrow>
   (\<forall>day \<in> set days. 1 \<le> s + day \<and> s + day \<le> 3652059)"
proof (induction days arbitrary: dc)
  case Nil
  then show ?case by simp
next
  case (Cons day days)
  show ?case
  proof (cases "add_days s day")
    case (Inl e)
    then show ?thesis by (auto simp: add_days_def split: if_splits)
  next
    case (Inr cur)
    then have "1 \<le> s + day \<and> s + day \<le> 3652059"
      by (auto simp: add_days_def split: if_splits)
    with Inr Cons.IH [of "add_cost dc (strftime cur) c"] show ?thesis by simp
  qed
qed

lemma spread_activities_returns:
  "(\<exists>dc'. spread_activities strftime start acts dc = Inr dc') \<longleftrightarrow>
   (\<forall>a \<in> set acts.
      dict_get (c_duration a) 1 \<noteq> 0 \<and>
      1 \<le> start + dict_get (c_early_start a) 0 \<and>
      start + dict_get (c_early_start a) 0 \<le> 3652059 \<and>
      (\<forall>day \<in> set (py_range (dict_get (c_duration a) 0)).
         1 \<le> start + dict_get (c_early_start a) 0 + day \<and>
         start + dict_get (c_early_start a) 0 + day \<le> 3652059))"
proof -
  define ok where "ok = (\<lambda>a :: cost_activity. dict_get (c_duration a) 1 \<noteq> 0 \<and>
      1 \<le> start + dict_get (c_early_start a) 0 \<and>
      start + dict_get (c_early_start a) 0 \<le> 3652059 \<and>
      (\<forall>day \<in> set (py_range (dict_get (c_duration a) 0)).
         1 \<le> start + dict_get (c_early_start a) 0 + day \<and>
         start + dict_get (c_early_start a) 0 + day \<le> 3652059))"
  have "(\<exists>dc'. spread_activities strftime start acts dc = Inr dc') \<longleftrightarrow> (\<forall>a \<in> set acts. ok a)"
  proof (induction acts arbitrary: dc)
    case Nil
    then show ?case by simp
  next
    case (Cons a acts)
    show ?case
    proof (cases "dict_get (c_duration a) 1 = 0")
      case True
      then have "\<not> ok a" by (simp add: ok_def)
      with True show ?thesis by (simp add: py_div_def)
    next
      case nz: False
      then have div: "py_div (dict_get (c_cost a) 0) (dict_get (c_duration a) 1) =
          Inr (dict_get (c_cost a) 0 / of_int (dict_get (c_duration a) 1))"
        by (simp add: py_div_def)
      show ?thesis
      proof (cases "add_days start (dict_get (c_early_start a) 0)")
        case (Inl e)
        then have "\<not> ok a" by (auto simp: ok_def add_days_def split: if_splits)
        with Inl div show ?thesis by simp
      next
        case (Inr s)
        then have s: "s = start + dict_get (c_early_start a) 0"
          "1 \<le> start + dict_get (c_early_start a) 0"
          "start + dict_get (c_early_start a) 0 \<le> 3652059"
          by (auto simp: add_days_def split: if_splits)
        let ?c = "dict_get (c_cost a) 0 / of_int (dict_get (c_duration a) 1)"
        let ?days = "py_range (dict_get (c_duration a) 0)"
        have days: "(\<exists>dc'. spread_days strftime s ?c ?days dc = Inr dc') \<longleftrightarrow> ok a"
          unfolding spread_days_returns ok_def s(1) using nz s(2,3) by simp
        show ?thesis
        proof (cases "spread_days strftime s ?c ?days dc")
          case (Inl e)
          with days have "\<not> ok a" by simp
          with Inl Inr div show ?thesis by simp
        next
          case one: (Inr dc1)
          with days have "ok a" by auto
          with one Inr div Cons.IH [of dc1] show ?thesis by simp
        qed
      qed
    qed
  qed
  then show ?thesis by (simp only: ok_def)
qed

lemma calculate_s_curve_returns:
  "(\<exists>curve. calculate_s_curve strftime acts start = Inr curve) \<longleftrightarrow>
   (\<forall>a \<in> set acts.
      dict_get (c_duration a) 1 \<noteq> 0 \<and>
      1 \<le> start + dict_get (c_early_start a) 0 \<and>
      start + dict_get (c_early_start a) 0 \<le> 3652059 \<and>
      (\<forall>day \<in> set (py_range (dict_get (c_duration a) 0)).
         1 \<le> start + dict_get (c_early_start a) 0 + day \<and>
         start + dict_get (c_early_start a) 0 + day \<le> 3652059))"
proof -
  have "(\<exists>curve. calculate_s_curve strftime acts start = Inr curve) \<longleftrightarrow>
        (\<exists>dc'. spread_activities strftime start acts [] = Inr dc')"
    by (auto simp: calculate_s_curve_def Let_def split: sum.splits)
  then show ?thesis by (simp only: spread_activities_returns)
qed




end
